theory Spec2Isabelle
  imports Complex_Main "HOL-Library.Word"
begin

section \<open>Data model\<close>

text \<open>
  The program is \<^verbatim>\<open>src/Ex2/rd_kernel.cu\<close>: a Gray-Scott reaction-diffusion stepper on a
  periodic grid. Its \<^verbatim>\<open>unsigned int\<close> values are 32-bit words, so every index
  computation wraps as the code's does. A \<^verbatim>\<open>float\<close> value is modelled by a real
  number: the arithmetic on field values is exact, and rounding, overflow to infinity and
  NaN are outside it. Where a float computation decides which cells a loop visits, in the
  bounds of the seed loops, it is computed in binary32 as the code computes it. A \<^verbatim>\<open>float*\<close> array is a map from cell offsets to values; a write is a
  function update. Reading or writing beyond an allocation is undefined in the source,
  and the theorems below speak about the cells of the grid.
\<close>

type_synonym u32 = "32 word"

type_synonym field = "nat \<Rightarrow> real"

datatype uint2 = make_uint2 (co_x: u32) (co_y: u32)

text \<open>A thread of a kernel launch, named by its block and its place in the block.\<close>

record thread =
  blockIdx :: uint2
  threadIdx :: uint2

section \<open>The Laplacian stencil\<close>

text \<open>
  \<^verbatim>\<open>calculateLaplacian\<close>, lines 50-57. The centre value is passed in by the caller;
  the four neighbour offsets are computed in unsigned arithmetic.
\<close>

definition calculateLaplacian :: "real \<Rightarrow> field \<Rightarrow> uint2 \<Rightarrow> real \<Rightarrow> u32 \<Rightarrow> u32 \<Rightarrow> real" where
  "calculateLaplacian dx array coordinate val width height =
    (let up = ((co_y coordinate - 1 + height) mod height) * width + co_x coordinate;
         down = ((co_y coordinate + 1) mod height) * width + co_x coordinate;
         right = co_y coordinate * width + (co_x coordinate + 1) mod width;
         left = co_y coordinate * width + (co_x coordinate - 1 + width) mod width
     in (array (unat right) + array (unat left) + array (unat up) + array (unat down)
           - 4 * val) / (dx * dx))"

text \<open>
  The stencil as the specification words it, on natural-number coordinates: each
  neighbour wraps around its own axis, modulo the width for columns and modulo the
  height for rows.
\<close>

definition laplacian_periodic :: "real \<Rightarrow> field \<Rightarrow> real \<Rightarrow> nat \<Rightarrow> nat \<Rightarrow> nat \<Rightarrow> nat \<Rightarrow> real" where
  "laplacian_periodic dx array center W H X Y =
    (array (Y * W + (X + 1) mod W) + array (Y * W + (X + W - 1) mod W)
       + array (((Y + H - 1) mod H) * W + X) + array (((Y + 1) mod H) * W + X)
       - 4 * center) / dx\<^sup>2"

text \<open>A field that is 1 at offset 0 and 0 elsewhere, used to tell neighbours apart.\<close>

definition unit_field :: field where
  "unit_field i = (if i = 0 then 1 else 0)"

section \<open>The kernel\<close>

text \<open>
  \<^verbatim>\<open>rd_kernel\<close>, lines 63-91: the work of one thread. It reads its own cell of both
  fields, computes the Laplacian of \<open>U\<close> from the array as it finds it, writes its cell of
  \<open>U\<close>, and does the same for \<open>V\<close>.
\<close>

definition rd_kernel ::
  "uint2 \<Rightarrow> thread \<Rightarrow> u32 \<Rightarrow> u32 \<Rightarrow> real \<Rightarrow> real \<Rightarrow> real \<Rightarrow> real \<Rightarrow> real \<Rightarrow> real
     \<Rightarrow> field \<times> field \<Rightarrow> field \<times> field" where
  "rd_kernel blockDim t width height dt dx Du Dv F k UV =
    (let U = fst UV; V = snd UV;
         co = make_uint2 (co_x (blockIdx t) * co_x blockDim + co_x (threadIdx t))
                         (co_y (blockIdx t) * co_y blockDim + co_y (threadIdx t));
         idx = unat (co_y co * width + co_x co);
         vU = U idx; vV = V idx;
         laplace = calculateLaplacian dx U co vU width height;
         step = Du * laplace - vU * vV * vV + F * (1 - vU);
         U = U(idx := vU + dt * step);
         laplace = calculateLaplacian dx V co vV width height;
         step = Dv * laplace + vU * vV * vV - (F + k) * vV;
         V = V(idx := vV + dt * step)
     in (U, V))"

text \<open>
  The launch \<^verbatim>\<open>rd_kernel<<< gridDim, blockDim >>>\<close> runs the kernel once for every
  thread of the grid. The source has no barrier and a single copy of each field, so the
  order in which the threads run is not fixed by the program: it is an input of the model,
  the schedule. Each thread runs its body to the end before the next one starts, which is
  one of the orders the launch permits. Threads named by the schedule that do not belong to
  the launch do not run.
\<close>

definition in_launch :: "uint2 \<Rightarrow> uint2 \<Rightarrow> thread \<Rightarrow> bool" where
  "in_launch gridDim blockDim t \<longleftrightarrow>
     co_x (blockIdx t) < co_x gridDim \<and> co_y (blockIdx t) < co_y gridDim \<and>
     co_x (threadIdx t) < co_x blockDim \<and> co_y (threadIdx t) < co_y blockDim"

definition rd_kernel_launch ::
  "thread list \<Rightarrow> uint2 \<Rightarrow> uint2 \<Rightarrow> u32 \<Rightarrow> u32 \<Rightarrow> real \<Rightarrow> real \<Rightarrow> real \<Rightarrow> real \<Rightarrow> real \<Rightarrow> real
     \<Rightarrow> field \<times> field \<Rightarrow> field \<times> field" where
  "rd_kernel_launch sched gridDim blockDim width height dt dx Du Dv F k UV =
     fold (\<lambda>t. rd_kernel blockDim t width height dt dx Du Dv F k)
       (filter (in_launch gridDim blockDim) sched) UV"

text \<open>The cell a thread owns: the offset \<^verbatim>\<open>idx\<close> of the kernel.\<close>

definition thread_co :: "uint2 \<Rightarrow> thread \<Rightarrow> uint2" where
  "thread_co blockDim t =
     make_uint2 (co_x (blockIdx t) * co_x blockDim + co_x (threadIdx t))
                (co_y (blockIdx t) * co_y blockDim + co_y (threadIdx t))"

definition thread_idx :: "uint2 \<Rightarrow> u32 \<Rightarrow> thread \<Rightarrow> nat" where
  "thread_idx blockDim width t =
     unat (co_y (thread_co blockDim t) * width + co_x (thread_co blockDim t))"

text \<open>
  The double-buffered step of the specification: every cell of the grid is advanced from
  the fields as they were before the step.
\<close>

definition reference_step ::
  "nat \<Rightarrow> nat \<Rightarrow> real \<Rightarrow> real \<Rightarrow> real \<Rightarrow> real \<Rightarrow> real \<Rightarrow> real \<Rightarrow> field \<times> field \<Rightarrow> field \<times> field" where
  "reference_step W H dt dx Du Dv F k UV =
     (\<lambda>i. if i < W * H
          then fst UV i + dt * (Du * laplacian_periodic dx (fst UV) (fst UV i) W H (i mod W) (i div W)
                 - fst UV i * (snd UV i)\<^sup>2 + F * (1 - fst UV i))
          else fst UV i,
      \<lambda>i. if i < W * H
          then snd UV i + dt * (Dv * laplacian_periodic dx (snd UV) (snd UV i) W H (i mod W) (i div W)
                 + fst UV i * (snd UV i)\<^sup>2 - (F + k) * snd UV i)
          else snd UV i)"

text \<open>The row-major schedule of a \<open>W\<close> by \<open>H\<close> grid cut into tiles of 16 by 16.\<close>

definition thread_of :: "nat \<Rightarrow> nat \<Rightarrow> thread" where
  "thread_of W i =
     \<lparr>blockIdx = make_uint2 (word_of_nat ((i mod W) div 16)) (word_of_nat ((i div W) div 16)),
      threadIdx = make_uint2 (word_of_nat ((i mod W) mod 16)) (word_of_nat ((i div W) mod 16))\<rparr>"

definition row_major :: "nat \<Rightarrow> nat \<Rightarrow> thread list" where
  "row_major W H = map (thread_of W) [0..<W * H]"

section \<open>Initialization\<close>

text \<open>
  What the program takes from its surroundings: the library's \<^verbatim>\<open>RAND_MAX\<close> and the
  value of each successive call of \<^verbatim>\<open>rand()\<close>, the indeterminate contents of a fresh
  allocation, whether the runtime reports an error after the allocations and after the
  launch, and the schedule of the launch.
\<close>

record env =
  rand_max :: int
  rand_seq :: "nat \<Rightarrow> int"
  garbage :: field
  malloc_ok :: bool
  launch_ok :: bool
  schedule :: "thread list"

text \<open>The C library promises \<^verbatim>\<open>0 <= rand() <= RAND_MAX\<close>.\<close>

definition rand_ok :: "env \<Rightarrow> bool" where
  "rand_ok e \<longleftrightarrow> 0 < rand_max e \<and> (\<forall>n. 0 \<le> rand_seq e n \<and> rand_seq e n \<le> rand_max e)"

text \<open>\<^verbatim>\<open>0.02f*(float)rand() / RAND_MAX - 0.01f\<close> for the \<open>n\<close>-th call of \<^verbatim>\<open>rand()\<close>.\<close>

definition rRand :: "env \<Rightarrow> nat \<Rightarrow> real" where
  "rRand e n = 0.02 * real_of_int (rand_seq e n) / real_of_int (rand_max e) - 0.01"

text \<open>
  The bounds of the seed loops are float computations that decide which cells are
  written, so they are computed here as the code computes them, in binary32 with
  rounding to nearest, ties to even. Every value involved is a non-negative multiple of a
  fixed power of two, far from the ends of the exponent range, so it is represented by a
  natural number of units, and rounding keeps the 24 leading bits of that number:
  \<open>excess n\<close> is the number of bits of \<open>n\<close> beyond 24, and \<open>round24 n\<close> is the
  multiple of \<open>2 ^ excess n\<close> nearest to \<open>n\<close>.
\<close>

function excess :: "nat \<Rightarrow> nat" where
  "excess n = (if n < 2 ^ 24 then 0 else Suc (excess (n div 2)))"
  by pat_completeness auto
termination
  by (relation "measure (\<lambda>n. n)") auto

declare excess.simps [simp del]

definition round24 :: "nat \<Rightarrow> nat" where
  "round24 n =
     (let s = excess n; q = n div 2 ^ s; r = n mod 2 ^ s
      in if 2 ^ s < 2 * r \<or> (2 * r = 2 ^ s \<and> odd q) then (q + 1) * 2 ^ s else q * 2 ^ s)"

text \<open>
  \<^verbatim>\<open>0.48f\<close> is \<open>16106127 / 2^25\<close> and \<^verbatim>\<open>0.52f\<close> is \<open>8724152 / 2^24\<close>. The
  product \<^verbatim>\<open>(0.48f)*n\<close> converts the integer \<open>n\<close> to float and multiplies; it is given in
  units of \<open>2^-25\<close>, and \<^verbatim>\<open>(0.52f)*n\<close> in units of \<open>2^-24\<close>. The loops start at
  \<^verbatim>\<open>(int)((0.48f)*n)\<close>, which truncates, and run while \<^verbatim>\<open>i < (0.52f)*n\<close>, a
  comparison of floats in which the \<^verbatim>\<open>int\<close> counter is converted to float.
\<close>

definition mul_048f :: "nat \<Rightarrow> nat" where
  "mul_048f n = round24 (16106127 * round24 n)"

definition mul_052f :: "nat \<Rightarrow> nat" where
  "mul_052f n = round24 (8724152 * round24 n)"

definition seed_first :: "nat \<Rightarrow> nat" where
  "seed_first n = mul_048f n div 2 ^ 25"

definition seed_test :: "nat \<Rightarrow> nat \<Rightarrow> bool" where
  "seed_test i n \<longleftrightarrow> round24 i * 2 ^ 24 < mul_052f n"

text \<open>Rounding moves a number by at most one unit of its last kept bit.\<close>

lemma excess_low: "n div 2 ^ excess n < 2 ^ 24"
proof (induction n rule: excess.induct)
  case (1 n)
  show ?case
  proof (cases "n < 2 ^ 24")
    case True
    then show ?thesis by (simp add: excess.simps)
  next
    case False
    have "excess n = Suc (excess (n div 2))" using False by (simp add: excess.simps)
    moreover have "n div 2 ^ Suc (excess (n div 2)) = (n div 2) div 2 ^ excess (n div 2)"
      by (simp add: div_mult2_eq)
    ultimately show ?thesis using "1.IH" [OF False] by simp
  qed
qed

lemma excess_high: "0 < excess n \<Longrightarrow> 2 ^ 23 \<le> n div 2 ^ excess n"
proof (induction n rule: excess.induct)
  case (1 n)
  show ?case
  proof (cases "n < 2 ^ 24")
    case True
    with "1.prems" show ?thesis by (simp add: excess.simps)
  next
    case False
    have e: "excess n = Suc (excess (n div 2))" using False by (simp add: excess.simps)
    have d: "n div 2 ^ Suc (excess (n div 2)) = (n div 2) div 2 ^ excess (n div 2)"
      by (simp add: div_mult2_eq)
    show ?thesis
    proof (cases "0 < excess (n div 2)")
      case True
      from "1.IH" [OF False True] show ?thesis unfolding e d .
    next
      case False
      then have z: "excess (n div 2) = 0" by simp
      have "(2 :: nat) ^ 23 \<le> n div 2" using \<open>\<not> n < 2 ^ 24\<close> by simp
      then show ?thesis unfolding e d z by simp
    qed
  qed
qed

lemma excess_mono: "m \<le> n \<Longrightarrow> excess m \<le> excess n"
proof (induction n arbitrary: m rule: excess.induct)
  case (1 n)
  show ?case
  proof (cases "m < 2 ^ 24")
    case True
    then show ?thesis by (simp add: excess.simps [of m])
  next
    case False
    with "1.prems" have n: "\<not> n < 2 ^ 24" by simp
    have "m div 2 \<le> n div 2" using "1.prems" by (rule div_le_mono)
    from "1.IH" [OF n this] show ?thesis
      using False n by (simp add: excess.simps [of m] excess.simps [of n])
  qed
qed

lemma round24_cases:
  "round24 n = (n div 2 ^ excess n) * 2 ^ excess n
   \<or> round24 n = (n div 2 ^ excess n + 1) * 2 ^ excess n"
  by (simp add: round24_def Let_def)

lemma round24_ge: "(n div 2 ^ excess n) * 2 ^ excess n \<le> round24 n"
  using round24_cases [of n] by auto

lemma round24_le: "round24 n \<le> (n div 2 ^ excess n + 1) * 2 ^ excess n"
  using round24_cases [of n] by auto

lemma round24_small: "n < 2 ^ 24 \<Longrightarrow> round24 n = n"
  by (simp add: round24_def Let_def excess.simps)

lemma ulp_le:
  assumes "0 < excess n"
  shows "2 ^ 23 * 2 ^ excess n \<le> n"
proof -
  have "2 ^ 23 * 2 ^ excess n \<le> (n div 2 ^ excess n) * 2 ^ excess n"
    using excess_high [OF assms] by (rule mult_le_mono1)
  also have "\<dots> \<le> n" by simp
  finally show ?thesis .
qed

lemma round24_upper: "2 ^ 23 * round24 n \<le> (2 ^ 23 + 1) * n"
proof (cases "0 < excess n")
  case True
  have "round24 n \<le> (n div 2 ^ excess n) * 2 ^ excess n + 2 ^ excess n"
    using round24_le [of n] by simp
  also have "\<dots> \<le> n + 2 ^ excess n" by simp
  finally have "2 ^ 23 * round24 n \<le> 2 ^ 23 * n + 2 ^ 23 * 2 ^ excess n"
    by (metis add_mult_distrib2 mult_le_mono2)
  with ulp_le [OF True] show ?thesis by simp
next
  case False
  then have "excess n = 0" by simp
  then have "round24 n = n" by (simp add: round24_def Let_def)
  then show ?thesis by simp
qed

lemma round24_lower: "(2 ^ 23 - 1) * n \<le> 2 ^ 23 * round24 n"
proof (cases "0 < excess n")
  case True
  have "n = (n div 2 ^ excess n) * 2 ^ excess n + n mod 2 ^ excess n"
    by (rule div_mult_mod_eq [symmetric])
  moreover have "n mod 2 ^ excess n < 2 ^ excess n" by simp
  ultimately have "n \<le> (n div 2 ^ excess n) * 2 ^ excess n + 2 ^ excess n" by linarith
  with round24_ge [of n] have "n \<le> round24 n + 2 ^ excess n" by linarith
  then have "2 ^ 23 * n \<le> 2 ^ 23 * round24 n + 2 ^ 23 * 2 ^ excess n"
    by (metis add_mult_distrib2 mult_le_mono2)
  with ulp_le [OF True] have "2 ^ 23 * n \<le> 2 ^ 23 * round24 n + n" by linarith
  then show ?thesis by (simp add: diff_mult_distrib)
next
  case False
  then have "excess n = 0" by simp
  then have "round24 n = n" by (simp add: round24_def Let_def)
  then show ?thesis by (simp add: diff_mult_distrib)
qed

lemma round24_half: "n \<le> 2 * round24 n"
  using round24_lower [of n] by simp

text \<open>
  The rounded number is a multiple of the unit of its last kept bit and is at most half
  that unit away.
\<close>

lemma round24_nearest:
  "2 ^ excess n dvd round24 n
   \<and> 2 * (round24 n - n) \<le> 2 ^ excess n \<and> 2 * (n - round24 n) \<le> 2 ^ excess n"
proof -
  let ?s = "excess n"
  let ?q = "n div 2 ^ ?s" and ?r = "n mod 2 ^ ?s"
  have n: "n = ?q * 2 ^ ?s + ?r" by (rule div_mult_mod_eq [symmetric])
  have r: "?r < 2 ^ ?s" by simp
  show ?thesis
  proof (cases "2 ^ ?s < 2 * ?r \<or> (2 * ?r = 2 ^ ?s \<and> odd ?q)")
    case True
    then have e: "round24 n = (?q + 1) * 2 ^ ?s" by (simp add: round24_def Let_def)
    have "round24 n = ?q * 2 ^ ?s + 2 ^ ?s" unfolding e by simp
    with n r True show ?thesis unfolding e by (auto; linarith)
  next
    case False
    then have e: "round24 n = ?q * 2 ^ ?s" by (simp add: round24_def Let_def)
    with n r False show ?thesis unfolding e by (auto; linarith)
  qed
qed

text \<open>
  The loops of \<^verbatim>\<open>initializeConcentrations\<close>, lines 18-40. The \<^verbatim>\<open>int\<close> counters are
  natural numbers here, which is what they are while the grid has fewer than \<open>2^31\<close> cells.
\<close>

function fill_loop :: "nat \<Rightarrow> nat \<Rightarrow> nat \<Rightarrow> field \<times> field \<Rightarrow> field \<times> field" where
  "fill_loop n i k UV =
     (if i < n then fill_loop n (i + 1) (k + 1) ((fst UV)(k := 1), (snd UV)(k := 0)) else UV)"
  by pat_completeness auto
termination
  by (relation "measure (\<lambda>(n, i, k, UV). n - i)") auto

function seed_cols :: "u32 \<Rightarrow> nat \<Rightarrow> nat \<Rightarrow> field \<times> field \<Rightarrow> field \<times> field" where
  "seed_cols width i j UV =
     (if seed_test j (unat width)
      then seed_cols width i (j + 1)
             ((fst UV)(unat (word_of_nat i * width + word_of_nat j) := 0.5),
              (snd UV)(unat (word_of_nat i * width + word_of_nat j) := 0.25))
      else UV)"
  by pat_completeness auto
termination
proof (relation "measure (\<lambda>(width, i, j, UV). 2 * mul_052f (unat width) - j)")
  fix width :: u32 and i j :: nat and UV :: "field \<times> field"
  assume "seed_test j (unat width)"
  then have "round24 j < mul_052f (unat width)" by (simp add: seed_test_def)
  with round24_half [of j] have "j < 2 * mul_052f (unat width)" by linarith
  then show "((width, i, j + 1,
                (fst UV)(unat (word_of_nat i * width + word_of_nat j) := 0.5),
                (snd UV)(unat (word_of_nat i * width + word_of_nat j) := 0.25)),
               (width, i, j, UV))
             \<in> measure (\<lambda>(width, i, j, UV). 2 * mul_052f (unat width) - j)"
    by simp
qed simp

function seed_rows :: "u32 \<Rightarrow> u32 \<Rightarrow> nat \<Rightarrow> field \<times> field \<Rightarrow> field \<times> field" where
  "seed_rows width height i UV =
     (if seed_test i (unat height)
      then seed_rows width height (i + 1)
             (seed_cols width i (seed_first (unat width)) UV)
      else UV)"
  by pat_completeness auto
termination
proof (relation "measure (\<lambda>(width, height, i, UV). 2 * mul_052f (unat height) - i)")
  fix width height :: u32 and i :: nat and UV :: "field \<times> field"
  assume "seed_test i (unat height)"
  then have "round24 i < mul_052f (unat height)" by (simp add: seed_test_def)
  with round24_half [of i] have "i < 2 * mul_052f (unat height)" by linarith
  then show "((width, height, i + 1, seed_cols width i (seed_first (unat width)) UV),
               (width, height, i, UV))
             \<in> measure (\<lambda>(width, height, i, UV). 2 * mul_052f (unat height) - i)"
    by simp
qed simp

text \<open>One round of the perturbation loop; the third component counts the calls of \<^verbatim>\<open>rand()\<close>.\<close>

definition perturb_cell :: "env \<Rightarrow> nat \<Rightarrow> field \<times> field \<times> nat \<Rightarrow> field \<times> field \<times> nat" where
  "perturb_cell e k s =
     (case s of (U, V, rc) \<Rightarrow>
        (case (if U k < 1 then (U(k := U k + rRand e rc * U k), rc + 1) else (U, rc)) of
           (U, rc) \<Rightarrow>
             (if V k < 1 then (U, V(k := V k + rRand e rc * V k), rc + 1) else (U, V, rc))))"

function perturb_loop :: "env \<Rightarrow> nat \<Rightarrow> nat \<Rightarrow> field \<times> field \<times> nat \<Rightarrow> field \<times> field \<times> nat" where
  "perturb_loop e n k s = (if k < n then perturb_loop e n (k + 1) (perturb_cell e k s) else s)"
  by pat_completeness auto
termination
  by (relation "measure (\<lambda>(e, n, k, s). n - k)") auto

declare fill_loop.simps [simp del]
declare seed_cols.simps [simp del]
declare seed_rows.simps [simp del]
declare perturb_loop.simps [simp del]

text \<open>A copy of the first \<open>n\<close> cells of \<open>src\<close> into \<open>dst\<close>.\<close>

definition cudaMemcpy :: "field \<Rightarrow> field \<Rightarrow> nat \<Rightarrow> field" where
  "cudaMemcpy dst src n = (\<lambda>i. if i < n then src i else dst i)"

text \<open>The host arrays after the baseline and the seed, before the perturbation.\<close>

definition seeded_fields :: "env \<Rightarrow> u32 \<Rightarrow> u32 \<Rightarrow> field \<times> field" where
  "seeded_fields e width height =
     seed_rows width height (seed_first (unat height))
       (fill_loop (unat (width * height)) 0 0 (garbage e, garbage e))"

definition initializeConcentrations ::
  "env \<Rightarrow> u32 \<Rightarrow> u32 \<Rightarrow> field \<Rightarrow> field \<Rightarrow> nat \<Rightarrow> field \<times> field \<times> nat" where
  "initializeConcentrations e width height U V rc =
     (case perturb_loop e (unat (width * height)) 0
             (fst (seeded_fields e width height), snd (seeded_fields e width height), rc) of
        (hU, hV, rc') \<Rightarrow>
          (cudaMemcpy U hU (unat (width * height)), cudaMemcpy V hV (unat (width * height)), rc'))"

text \<open>
  The cells the seed loops write, by row \<open>idx div W\<close> and column \<open>idx mod W\<close>; and the
  central patch as the specification words it, rows and columns in the fractional range
  \<open>[0.48, 0.52)\<close> of the height and the width.
\<close>

definition seeded :: "nat \<Rightarrow> nat \<Rightarrow> nat \<Rightarrow> bool" where
  "seeded W H idx \<longleftrightarrow>
     seed_first H \<le> idx div W \<and> seed_test (idx div W) H \<and>
     seed_first W \<le> idx mod W \<and> seed_test (idx mod W) W"

definition in_central_patch :: "nat \<Rightarrow> nat \<Rightarrow> nat \<Rightarrow> bool" where
  "in_central_patch W H idx \<longleftrightarrow>
     0.48 * real H \<le> real (idx div W) \<and> real (idx div W) < 0.52 * real H \<and>
     0.48 * real W \<le> real (idx mod W) \<and> real (idx mod W) < 0.52 * real W"

text \<open>The number of calls of \<^verbatim>\<open>rand()\<close> the perturbation makes for the cells below \<open>c\<close>.\<close>

fun draws :: "field \<Rightarrow> field \<Rightarrow> nat \<Rightarrow> nat" where
  "draws U V 0 = 0"
| "draws U V (Suc c) =
     draws U V c + (if U c < 1 then 1 else 0) + (if V c < 1 then 1 else 0)"

section \<open>The step\<close>

text \<open>
  \<^verbatim>\<open>rd\<close>, lines 101-155. The static variables of the function are the state that
  lives from call to call; a device pointer is \<open>None\<close> until \<^verbatim>\<open>cudaMalloc\<close> has set
  it. \<^verbatim>\<open>exit(1)\<close> ends the call with the state as it is at that point.
\<close>

datatype fatal = CudaError | DimensionError | KernelError

datatype outcome = Exited fatal | Returned field | Undefined

record sim_state =
  first_pass :: bool
  U_dev :: "field option"
  V_dev :: "field option"
  rand_calls :: nat

definition rd :: "env \<Rightarrow> u32 \<Rightarrow> u32 \<Rightarrow> field \<Rightarrow> sim_state \<Rightarrow> outcome \<times> sim_state" where
  "rd e width height result_devPtr s =
     (if first_pass s \<and> \<not> malloc_ok e then (Exited CudaError, s)
      else
        (let s = (if first_pass s
                  then (case initializeConcentrations e width height (garbage e) (garbage e)
                               (rand_calls s) of
                          (U, V, rc) \<Rightarrow>
                            s\<lparr>first_pass := False, U_dev := Some U, V_dev := Some V,
                              rand_calls := rc\<rparr>)
                  else s);
             blockDim = make_uint2 16 16
         in if width mod co_x blockDim \<noteq> 0 \<or> height mod co_y blockDim \<noteq> 0
            then (Exited DimensionError, s)
            else
              (let dt = 0.5; dx = 2;
                   Du = 0.0004 * (real (unat (width * height)) / 100);
                   Dv = 0.0002 * (real (unat (width * height)) / 100);
                   F = 0.012; k = 0.052
               in case (U_dev s, V_dev s) of
                    (Some U, Some V) \<Rightarrow>
                      (if \<not> launch_ok e then (Exited KernelError, s)
                       else
                         (case rd_kernel_launch (schedule e)
                                 (make_uint2 (width div co_x blockDim) (height div co_y blockDim))
                                 blockDim width height dt dx Du Dv F k (U, V) of
                            (U, V) \<Rightarrow>
                              (Returned (cudaMemcpy result_devPtr U (unat (width * height))),
                               s\<lparr>U_dev := Some U, V_dev := Some V\<rparr>)))
                  | _ \<Rightarrow> (Undefined, s))))"

text \<open>Concrete inputs for the examples.\<close>

definition env0 :: env where
  "env0 = \<lparr>rand_max = 2147483647, rand_seq = (\<lambda>n. int (n * 1103515245 + 12345) mod 2147483648),
           garbage = (\<lambda>i. 7), malloc_ok = True, launch_ok = True, schedule = row_major 32 32\<rparr>"

definition env16 :: env where
  "env16 = \<lparr>rand_max = 2147483647, rand_seq = (\<lambda>n. int (n * 1103515245 + 12345) mod 2147483648),
            garbage = (\<lambda>i. 7), malloc_ok = True, launch_ok = True, schedule = row_major 16 16\<rparr>"

text \<open>
  A schedule of the 16 by 16 launch: the thread of cell 16 (column 0 of row 1) runs first,
  the thread of cell 32 (column 0 of row 2) second, the other threads after them in
  row-major order.
\<close>

definition hazard_schedule :: "thread list" where
  "hazard_schedule =
     thread_of 16 16 # thread_of 16 32
       # map (thread_of 16) ([0..<16] @ [17..<32] @ [33..<256])"

definition env_hazard :: env where
  "env_hazard = \<lparr>rand_max = 2147483647, rand_seq = (\<lambda>n. 0), garbage = (\<lambda>i. 7),
                 malloc_ok = True, launch_ok = True, schedule = hazard_schedule\<rparr>"

definition state0 :: sim_state where
  "state0 = \<lparr>first_pass = True, U_dev = None, V_dev = None, rand_calls = 0\<rparr>"

definition pixel_field :: field where
  "pixel_field i = (if i = 16 then 0 else 1)"

definition zero_field :: field where
  "zero_field i = 0"

definition one_field :: field where
  "one_field i = 1"

definition pixel_state :: sim_state where
  "pixel_state = \<lparr>first_pass = False, U_dev = Some pixel_field, V_dev = Some zero_field,
                  rand_calls = 0\<rparr>"

definition flat_state :: sim_state where
  "flat_state = \<lparr>first_pass = False, U_dev = Some one_field, V_dev = Some zero_field,
                 rand_calls = 0\<rparr>"

text \<open>The fields of a state, read through the device pointers.\<close>

definition U_of :: "sim_state \<Rightarrow> field" where
  "U_of s = (case U_dev s of Some U \<Rightarrow> U | None \<Rightarrow> zero_field)"

definition V_of :: "sim_state \<Rightarrow> field" where
  "V_of s = (case V_dev s of Some V \<Rightarrow> V | None \<Rightarrow> zero_field)"

text \<open>Whether a call came back to its caller.\<close>

fun returned :: "outcome \<Rightarrow> bool" where
  "returned (Returned out) = True"
| "returned (Exited f) = False"
| "returned Undefined = False"

section \<open>Index arithmetic\<close>

lemma unat_succ_mod:
  fixes y h :: u32
  assumes "y < h"
  shows "unat ((y + 1) mod h) = (unat y + 1) mod unat h"
proof -
  have "unat y < unat h" using assms by (simp add: word_less_nat_alt)
  moreover have "unat h < 2 ^ 32" using unsigned_less [of h] by simp
  ultimately have "unat y + 1 < 2 ^ 32" by linarith
  then have "unat (y + 1) = unat y + 1"
    by (simp add: unat_word_ariths)
  then show ?thesis by (simp add: unat_mod)
qed

lemma unat_pred_mod:
  fixes y h :: u32
  assumes "0 < h" and "unat y + unat h \<le> 2 ^ 32"
  shows "unat ((y - 1 + h) mod h) = (unat y + unat h - 1) mod unat h"
proof -
  have hne: "h \<noteq> 0" using assms(1) by auto
  then have hpos: "0 < unat h" by (simp add: unat_gt_0)
  have eq: "y - 1 + h = y + (h - 1)" by simp
  have "unat (h - 1) = unat h - 1"
    using hne by (rule unat_minus_one)
  moreover have "unat y + (unat h - 1) < 2 ^ 32" using assms(2) hpos by linarith
  ultimately have "unat (y + (h - 1)) = unat y + (unat h - 1)"
    by (simp add: unat_word_ariths)
  then have "unat (y - 1 + h) = unat y + unat h - 1"
    unfolding eq using hpos by linarith
  then show ?thesis by (simp add: unat_mod)
qed

lemma unat_linear_le:
  fixes r w c :: u32
  shows "unat (r * w + c) \<le> unat r * unat w + unat c"
  by (simp add: unat_word_ariths)

lemma unat_linear:
  fixes r w c :: u32
  assumes "unat r * unat w + unat c < 2 ^ 32"
  shows "unat (r * w + c) = unat r * unat w + unat c"
  using assms by (simp add: unat_word_ariths)

lemma cell_bound:
  fixes r c W H :: nat
  assumes "r < H" "c < W"
  shows "r * W + c < W * H"
proof -
  have "r * W + c < r * W + W" using assms by simp
  also have "\<dots> = (r + 1) * W" by simp
  also have "\<dots> \<le> H * W" using assms(1) by (intro mult_le_mono1) simp
  finally show ?thesis by (simp add: mult.commute)
qed

lemma unat_mod_less:
  fixes a h :: u32
  assumes "0 < h"
  shows "unat (a mod h) < unat h"
proof -
  have "0 < unat h" using assms by (simp add: word_less_nat_alt)
  then show ?thesis by (simp add: unat_mod)
qed

text \<open>Every offset the stencil computes for a cell of the grid is a cell of the grid.\<close>

lemma unat_cell_less:
  fixes r c w h :: u32
  assumes "r < h" "c < w"
  shows "unat (r * w + c) < unat w * unat h"
proof -
  have "unat r < unat h" "unat c < unat w"
    using assms by (simp_all add: word_less_nat_alt)
  then have "unat r * unat w + unat c < unat w * unat h" by (rule cell_bound)
  with unat_linear_le [of r w c] show ?thesis by linarith
qed

lemma word_less_pos:
  fixes x w :: u32
  assumes "x < w"
  shows "0 < w"
  using assms by (metis word_gt_0 word_not_simps(1))

lemma unat_right:
  fixes x y w h :: u32
  assumes "x < w" "y < h" "unat w * unat h \<le> 2 ^ 32"
  shows "unat (y * w + (x + 1) mod w) = unat y * unat w + (unat x + 1) mod unat w"
proof -
  have wpos: "0 < w" using assms(1) by (rule word_less_pos)
  have Y: "unat y < unat h" using assms(2) by (simp add: word_less_nat_alt)
  have "unat ((x + 1) mod w) < unat w" using wpos by (rule unat_mod_less)
  with Y have "unat y * unat w + unat ((x + 1) mod w) < unat w * unat h"
    by (rule cell_bound)
  with assms(3) have "unat y * unat w + unat ((x + 1) mod w) < 2 ^ 32" by linarith
  then have "unat (y * w + (x + 1) mod w) = unat y * unat w + unat ((x + 1) mod w)"
    by (rule unat_linear)
  then show ?thesis using assms(1) by (simp add: unat_succ_mod)
qed

lemma unat_left:
  fixes x y w h :: u32
  assumes "x < w" "y < h" "unat w * unat h \<le> 2 ^ 32" "unat w \<le> 2 ^ 31"
  shows "unat (y * w + (x - 1 + w) mod w) = unat y * unat w + (unat x + unat w - 1) mod unat w"
proof -
  have wpos: "0 < w" using assms(1) by (rule word_less_pos)
  have X: "unat x < unat w" using assms(1) by (simp add: word_less_nat_alt)
  have Y: "unat y < unat h" using assms(2) by (simp add: word_less_nat_alt)
  have sum: "unat x + unat w \<le> 2 ^ 32" using X assms(4) by simp
  have "unat ((x - 1 + w) mod w) < unat w" using wpos by (rule unat_mod_less)
  with Y have "unat y * unat w + unat ((x - 1 + w) mod w) < unat w * unat h"
    by (rule cell_bound)
  with assms(3) have "unat y * unat w + unat ((x - 1 + w) mod w) < 2 ^ 32" by linarith
  then have "unat (y * w + (x - 1 + w) mod w) = unat y * unat w + unat ((x - 1 + w) mod w)"
    by (rule unat_linear)
  then show ?thesis using wpos sum by (simp add: unat_pred_mod)
qed

lemma unat_down:
  fixes x y w h :: u32
  assumes "x < w" "y < h" "unat w * unat h \<le> 2 ^ 32"
  shows "unat ((y + 1) mod h * w + x) = (unat y + 1) mod unat h * unat w + unat x"
proof -
  have hpos: "0 < h" using assms(2) by (rule word_less_pos)
  have X: "unat x < unat w" using assms(1) by (simp add: word_less_nat_alt)
  have "unat ((y + 1) mod h) < unat h" using hpos by (rule unat_mod_less)
  then have "unat ((y + 1) mod h) * unat w + unat x < unat w * unat h"
    using X by (rule cell_bound)
  with assms(3) have "unat ((y + 1) mod h) * unat w + unat x < 2 ^ 32" by linarith
  then have "unat ((y + 1) mod h * w + x) = unat ((y + 1) mod h) * unat w + unat x"
    by (rule unat_linear)
  then show ?thesis using assms(2) by (simp add: unat_succ_mod)
qed

lemma unat_up:
  fixes x y w h :: u32
  assumes "x < w" "y < h" "unat w * unat h \<le> 2 ^ 32" "unat h \<le> 2 ^ 31"
  shows "unat ((y - 1 + h) mod h * w + x) = (unat y + unat h - 1) mod unat h * unat w + unat x"
proof -
  have hpos: "0 < h" using assms(2) by (rule word_less_pos)
  have X: "unat x < unat w" using assms(1) by (simp add: word_less_nat_alt)
  have Y: "unat y < unat h" using assms(2) by (simp add: word_less_nat_alt)
  have sum: "unat y + unat h \<le> 2 ^ 32" using Y assms(4) by simp
  have "unat ((y - 1 + h) mod h) < unat h" using hpos by (rule unat_mod_less)
  then have "unat ((y - 1 + h) mod h) * unat w + unat x < unat w * unat h"
    using X by (rule cell_bound)
  with assms(3) have "unat ((y - 1 + h) mod h) * unat w + unat x < 2 ^ 32" by linarith
  then have "unat ((y - 1 + h) mod h * w + x) = unat ((y - 1 + h) mod h) * unat w + unat x"
    by (rule unat_linear)
  then show ?thesis using hpos sum by (simp add: unat_pred_mod)
qed

text \<open>On a grid without overflow the stencil of the code is the periodic stencil.\<close>

lemma laplacian_code_periodic:
  fixes x y width height :: u32
  assumes "x < width" and "y < height"
    and "unat width \<le> 2 ^ 31" and "unat height \<le> 2 ^ 31"
    and "unat width * unat height \<le> 2 ^ 32"
  shows "calculateLaplacian dx array (make_uint2 x y) v width height =
           laplacian_periodic dx array v (unat width) (unat height) (unat x) (unat y)"
  using assms
  by (simp add: calculateLaplacian_def laplacian_periodic_def Let_def power2_eq_square
      unat_right [of x width y height] unat_left [of x width y height]
      unat_up [of x width y height] unat_down [of x width y height])

text \<open>On a field that is constant over the grid every neighbour read returns the constant.\<close>

lemma laplacian_const:
  fixes x y width height :: u32
  assumes "x < width" and "y < height"
    and "\<forall>i < unat width * unat height. array i = c"
  shows "calculateLaplacian dx array (make_uint2 x y) c width height = 0"
proof -
  have wpos: "0 < width" using assms(1) by (rule word_less_pos)
  have hpos: "0 < height" using assms(2) by (rule word_less_pos)
  have cell: "array (unat (r * width + q)) = c" if "r < height" "q < width" for r q
    using assms(3) unat_cell_less [OF that] by simp
  have modw: "a mod width < width" for a
    using wpos by (simp add: word_mod_less_divisor)
  have modh: "a mod height < height" for a
    using hpos by (simp add: word_mod_less_divisor)
  show ?thesis
    by (simp add: calculateLaplacian_def Let_def cell assms(1,2) modw modh)
qed

section \<open>Claims about the stencil\<close>

text \<open>
  C4, as stated: for every field, every grid with positive width and height and every
  coordinate of the grid, the Laplacian is \<open>(right + left + up + down - 4 * center) / dx\<^sup>2\<close>
  with each neighbour wrapped modulo the width or the height. This fails where the
  unsigned sum \<^verbatim>\<open>coordinate.y - 1 + height\<close> overflows 32 bits: on a grid of width 1
  and height \<open>2^31 + 1\<close>, at the last row \<open>y = 2^31\<close>, the sum is \<open>2^32\<close>, which
  wraps to 0, so the code reads row 0 as the upper neighbour where the periodic stencil
  reads row \<open>2^31 - 1\<close>.
\<close>

theorem calculateLaplacian_overflow_counterexample:
  "calculateLaplacian 2 unit_field (make_uint2 0 2147483648) 0 1 2147483649
     \<noteq> laplacian_periodic 2 unit_field 0 1 2147483649 0 2147483648"
  by (simp add: calculateLaplacian_def laplacian_periodic_def Let_def unit_field_def)

text \<open>
  C4, amended: for every field, every grid whose width and height are at most \<open>2^31\<close>
  and whose number of cells is at most \<open>2^32\<close>, and every coordinate \<open>(x, y)\<close> of the
  grid, the Laplacian of the code is \<open>(right + left + up + down - 4 * center) / dx\<^sup>2\<close>
  where each neighbour index wraps around its own axis, modulo the width for \<open>x\<close> and
  modulo the height for \<open>y\<close>, with no special case at the edges.
\<close>

theorem calculateLaplacian_periodic:
  fixes x y width height :: u32
  assumes "x < width" and "y < height"
    and "unat width \<le> 2 ^ 31" and "unat height \<le> 2 ^ 31"
    and "unat width * unat height \<le> 2 ^ 32"
  shows "calculateLaplacian dx array (make_uint2 x y) center width height =
           (array (unat y * unat width + (unat x + 1) mod unat width)
            + array (unat y * unat width + (unat x + unat width - 1) mod unat width)
            + array (((unat y + unat height - 1) mod unat height) * unat width + unat x)
            + array (((unat y + 1) mod unat height) * unat width + unat x)
            - 4 * center) / dx\<^sup>2
         \<and> calculateLaplacian dx array (make_uint2 x y) center width height =
           laplacian_periodic dx array center (unat width) (unat height) (unat x) (unat y)"
  using laplacian_code_periodic [OF assms, of dx array center]
  by (simp add: laplacian_periodic_def)

theorem calculateLaplacian_periodic_witness:
  "calculateLaplacian 2 unit_field (make_uint2 15 0) 0 16 16 = 1 / 4
   \<and> laplacian_periodic 2 unit_field 0 16 16 15 0 = 1 / 4"
  using calculateLaplacian_periodic [of 15 16 0 16 2 unit_field 0]
  by (simp add: unit_field_def)

text \<open>
  C8: for every field that has the same value \<open>c\<close> at all cells of the grid, and every
  grid, the Laplacian computed at a cell of the grid, with the cell's own value as the
  centre, is exactly 0; the corners are cells like the others. In this statement the
  arithmetic is exact.
\<close>

theorem laplacian_uniform_zero:
  fixes x y width height :: u32
  assumes "x < width" and "y < height"
    and "\<forall>i < unat width * unat height. array i = c"
  shows "calculateLaplacian dx array (make_uint2 x y) (array (unat (y * width + x)))
           width height = 0"
proof -
  have "array (unat (y * width + x)) = c"
    using assms(3) unat_cell_less [OF assms(2) assms(1)] by simp
  then show ?thesis using laplacian_const [OF assms] by simp
qed

theorem laplacian_uniform_zero_witness:
  "calculateLaplacian 2 one_field (make_uint2 0 0) (one_field 0) 16 16 = 0
   \<and> calculateLaplacian 2 one_field (make_uint2 15 0) (one_field 15) 16 16 = 0
   \<and> calculateLaplacian 2 one_field (make_uint2 0 15) (one_field 240) 16 16 = 0
   \<and> calculateLaplacian 2 one_field (make_uint2 15 15) (one_field 255) 16 16 = 0"
  using laplacian_uniform_zero [of 0 16 0 16 one_field 1 2]
    laplacian_uniform_zero [of 15 16 0 16 one_field 1 2]
    laplacian_uniform_zero [of 0 16 15 16 one_field 1 2]
    laplacian_uniform_zero [of 15 16 15 16 one_field 1 2]
  by (simp add: one_field_def)

section \<open>The threads of a launch\<close>

lemma rd_kernel_eq:
  "rd_kernel bd t w h dt dx Du Dv F k (U, V) =
     (let co = thread_co bd t; idx = thread_idx bd w t in
      (U(idx := U idx + dt * (Du * calculateLaplacian dx U co (U idx) w h
                 - U idx * V idx * V idx + F * (1 - U idx))),
       V(idx := V idx + dt * (Dv * calculateLaplacian dx V co (V idx) w h
                 + U idx * V idx * V idx - (F + k) * V idx))))"
  by (simp add: rd_kernel_def thread_co_def thread_idx_def Let_def)

lemma rd_kernel_frame:
  assumes "c \<noteq> thread_idx bd w t"
  shows "fst (rd_kernel bd t w h dt dx Du Dv F k UV) c = fst UV c"
    and "snd (rd_kernel bd t w h dt dx Du Dv F k UV) c = snd UV c"
  using assms by (cases UV; simp add: rd_kernel_eq Let_def)+

lemma fold_rd_kernel_frame:
  assumes "\<forall>t \<in> set ts. thread_idx bd w t \<noteq> c"
  shows "fst (fold (\<lambda>t. rd_kernel bd t w h dt dx Du Dv F k) ts UV) c = fst UV c
       \<and> snd (fold (\<lambda>t. rd_kernel bd t w h dt dx Du Dv F k) ts UV) c = snd UV c"
  using assms
proof (induction ts arbitrary: UV)
  case Nil
  then show ?case by simp
next
  case (Cons t ts)
  then have "c \<noteq> thread_idx bd w t" by auto
  with Cons show ?case by (simp add: rd_kernel_frame)
qed

lemma launch_coord:
  fixes b t d :: u32
  assumes "b < w div 16" "t < 16"
  shows "b * 16 + t < w" and "unat (b * 16 + t) = unat b * 16 + unat t"
proof -
  have B: "unat b < unat w div 16" using assms(1) by (simp add: word_less_nat_alt unat_div)
  have T: "unat t < 16" using assms(2) by (simp add: word_less_nat_alt)
  have "unat b * 16 + unat t < unat w" using B T by linarith
  moreover have "unat w < 2 ^ 32" using unsigned_less [of w] by simp
  ultimately have lt: "unat b * 16 + unat t < 2 ^ 32" by linarith
  then show eq: "unat (b * 16 + t) = unat b * 16 + unat t"
    using unat_linear [of b 16 t] by simp
  show "b * 16 + t < w"
    using \<open>unat b * 16 + unat t < unat w\<close> eq by (simp add: word_less_nat_alt)
qed

lemma in_launch_co:
  assumes "in_launch (make_uint2 (w div 16) (h div 16)) (make_uint2 16 16) t"
  shows "co_x (thread_co (make_uint2 16 16) t) < w"
    and "co_y (thread_co (make_uint2 16 16) t) < h"
  using assms by (simp_all add: in_launch_def thread_co_def launch_coord(1))

lemma thread_idx_less:
  assumes "in_launch (make_uint2 (w div 16) (h div 16)) (make_uint2 16 16) t"
  shows "thread_idx (make_uint2 16 16) w t < unat w * unat h"
  unfolding thread_idx_def
  using in_launch_co [OF assms] by (intro unat_cell_less)

lemma rd_kernel_flat:
  assumes "in_launch (make_uint2 (w div 16) (h div 16)) (make_uint2 16 16) t"
    and "\<forall>i < unat w * unat h. U i = 1"
    and "\<forall>i < unat w * unat h. V i = 0"
  shows "rd_kernel (make_uint2 16 16) t w h dt dx Du Dv F k (U, V) = (U, V)"
proof -
  let ?bd = "make_uint2 16 16"
  let ?co = "thread_co ?bd t"
  let ?idx = "thread_idx ?bd w t"
  have co: "?co = make_uint2 (co_x ?co) (co_y ?co)" by simp
  have idx: "?idx < unat w * unat h" using assms(1) by (rule thread_idx_less)
  have U1: "U ?idx = 1" and V0: "V ?idx = 0" using idx assms(2,3) by auto
  have lapU: "calculateLaplacian dx U ?co 1 w h = 0"
    using laplacian_const [OF in_launch_co [OF assms(1)] assms(2), of dx] by simp
  have lapV: "calculateLaplacian dx V ?co 0 w h = 0"
    using laplacian_const [OF in_launch_co [OF assms(1)] assms(3), of dx] by simp
  have "U(?idx := 1) = U" using U1 by (metis fun_upd_triv)
  moreover have "V(?idx := 0) = V" using V0 by (metis fun_upd_triv)
  ultimately show ?thesis
    by (simp add: rd_kernel_eq Let_def U1 V0 lapU lapV)
qed

lemma launch_flat:
  assumes "\<forall>i < unat w * unat h. U i = 1"
    and "\<forall>i < unat w * unat h. V i = 0"
  shows "rd_kernel_launch sched (make_uint2 (w div 16) (h div 16)) (make_uint2 16 16)
           w h dt dx Du Dv F k (U, V) = (U, V)"
proof -
  have "fold (\<lambda>t. rd_kernel (make_uint2 16 16) t w h dt dx Du Dv F k) ts (U, V) = (U, V)"
    if "\<forall>t \<in> set ts. in_launch (make_uint2 (w div 16) (h div 16)) (make_uint2 16 16) t" for ts
    using that
  proof (induction ts)
    case Nil
    then show ?case by simp
  next
    case (Cons t ts)
    then show ?case using rd_kernel_flat [OF _ assms] by simp
  qed
  then show ?thesis by (simp add: rd_kernel_launch_def)
qed


lemma divmod_unique:
  fixes a b c d n :: nat
  assumes "a * n + b = c * n + d" "b < n" "d < n"
  shows "a = c \<and> b = d"
proof -
  have "(a * n + b) div n = a" "(c * n + d) div n = c" using assms(2,3) by simp_all
  then have "a = c" using assms(1) by simp
  then show ?thesis using assms(1) by simp
qed

lemma thread_idx_nat:
  assumes "in_launch (make_uint2 (w div 16) (h div 16)) (make_uint2 16 16) t"
    and "unat w * unat h \<le> 2 ^ 32"
  shows "thread_idx (make_uint2 16 16) w t =
           (unat (co_y (blockIdx t)) * 16 + unat (co_y (threadIdx t))) * unat w
           + (unat (co_x (blockIdx t)) * 16 + unat (co_x (threadIdx t)))"
    and "unat (co_x (blockIdx t)) * 16 + unat (co_x (threadIdx t)) < unat w"
    and "unat (co_y (threadIdx t)) < 16" and "unat (co_x (threadIdx t)) < 16"
proof -
  let ?co = "thread_co (make_uint2 16 16) t"
  have bx: "co_x (blockIdx t) < w div 16" and tx: "co_x (threadIdx t) < 16"
    and "by": "co_y (blockIdx t) < h div 16" and ty: "co_y (threadIdx t) < 16"
    using assms(1) by (simp_all add: in_launch_def)
  have X: "unat (co_x ?co) = unat (co_x (blockIdx t)) * 16 + unat (co_x (threadIdx t))"
    using launch_coord(2) [OF bx tx] by (simp add: thread_co_def)
  have Y: "unat (co_y ?co) = unat (co_y (blockIdx t)) * 16 + unat (co_y (threadIdx t))"
    using launch_coord(2) [OF "by" ty] by (simp add: thread_co_def)
  have Xl: "unat (co_x ?co) < unat w" and Yl: "unat (co_y ?co) < unat h"
    using in_launch_co [OF assms(1)] by (simp_all add: word_less_nat_alt)
  have "unat (co_y ?co) * unat w + unat (co_x ?co) < unat w * unat h"
    using Yl Xl by (rule cell_bound)
  with assms(2) have "unat (co_y ?co) * unat w + unat (co_x ?co) < 2 ^ 32" by linarith
  then have "thread_idx (make_uint2 16 16) w t = unat (co_y ?co) * unat w + unat (co_x ?co)"
    unfolding thread_idx_def by (rule unat_linear)
  then show "thread_idx (make_uint2 16 16) w t =
           (unat (co_y (blockIdx t)) * 16 + unat (co_y (threadIdx t))) * unat w
           + (unat (co_x (blockIdx t)) * 16 + unat (co_x (threadIdx t)))"
    using X Y by simp
  show "unat (co_x (blockIdx t)) * 16 + unat (co_x (threadIdx t)) < unat w"
    using Xl X by simp
  show "unat (co_y (threadIdx t)) < 16" "unat (co_x (threadIdx t)) < 16"
    using tx ty by (simp_all add: word_less_nat_alt)
qed

lemma thread_idx_inj:
  assumes "in_launch (make_uint2 (w div 16) (h div 16)) (make_uint2 16 16) t1"
    and "in_launch (make_uint2 (w div 16) (h div 16)) (make_uint2 16 16) t2"
    and "unat w * unat h \<le> 2 ^ 32"
    and "thread_idx (make_uint2 16 16) w t1 = thread_idx (make_uint2 16 16) w t2"
  shows "t1 = t2"
proof -
  note n1 = thread_idx_nat [OF assms(1) assms(3)]
  note n2 = thread_idx_nat [OF assms(2) assms(3)]
  have rows: "unat (co_y (blockIdx t1)) * 16 + unat (co_y (threadIdx t1))
                = unat (co_y (blockIdx t2)) * 16 + unat (co_y (threadIdx t2))"
    and cols: "unat (co_x (blockIdx t1)) * 16 + unat (co_x (threadIdx t1))
                = unat (co_x (blockIdx t2)) * 16 + unat (co_x (threadIdx t2))"
    using divmod_unique [OF assms(4) [unfolded n1(1) n2(1)] n1(2) n2(2)] by simp_all
  have "unat (co_y (blockIdx t1)) = unat (co_y (blockIdx t2))"
    "unat (co_y (threadIdx t1)) = unat (co_y (threadIdx t2))"
    using divmod_unique [OF rows n1(3) n2(3)] by simp_all
  moreover have "unat (co_x (blockIdx t1)) = unat (co_x (blockIdx t2))"
    "unat (co_x (threadIdx t1)) = unat (co_x (threadIdx t2))"
    using divmod_unique [OF cols n1(4) n2(4)] by simp_all
  ultimately have "blockIdx t1 = blockIdx t2" "threadIdx t1 = threadIdx t2"
    by (simp_all add: uint2.expand word_unat_eq_iff)
  then show ?thesis by simp
qed

lemma launch_cell:
  fixes w h :: u32
  defines "G \<equiv> make_uint2 (w div 16) (h div 16)" and "B \<equiv> make_uint2 16 16"
  assumes dist: "distinct sched" and split: "sched = before @ t # after"
    and t: "in_launch G B t" and fit: "unat w * unat h \<le> 2 ^ 32"
    and mid: "UVm = rd_kernel_launch before G B w h dt dx Du Dv F k (U, V)"
    and fin: "UV' = rd_kernel_launch sched G B w h dt dx Du Dv F k (U, V)"
    and idx: "idx = thread_idx B w t" and co: "co = thread_co B t"
  shows "fst UV' idx = U idx + dt * (Du * calculateLaplacian dx (fst UVm) co (U idx) w h
                         - U idx * (V idx)\<^sup>2 + F * (1 - U idx))"
    and "snd UV' idx = V idx + dt * (Dv * calculateLaplacian dx (snd UVm) co (V idx) w h
                         + U idx * (V idx)\<^sup>2 - (F + k) * V idx)"
proof -
  let ?f = "\<lambda>t. rd_kernel B t w h dt dx Du Dv F k"
  have other: "thread_idx B w t' \<noteq> thread_idx B w t" if "in_launch G B t'" "t' \<noteq> t" for t'
    using thread_idx_inj [of w h t' t] that t fit unfolding G_def B_def by auto
  have tb: "t \<notin> set before" and ta: "t \<notin> set after"
    using dist unfolding split by simp_all
  have nb: "\<forall>t' \<in> set (filter (in_launch G B) before). thread_idx B w t' \<noteq> idx"
    unfolding idx using other tb by auto
  have na: "\<forall>t' \<in> set (filter (in_launch G B) after). thread_idx B w t' \<noteq> idx"
    unfolding idx using other ta by auto
  have UVm: "UVm = fold ?f (filter (in_launch G B) before) (U, V)"
    using mid by (simp add: rd_kernel_launch_def)
  have m: "fst UVm idx = U idx" "snd UVm idx = V idx"
    using fold_rd_kernel_frame [OF nb, of h dt dx Du Dv F k "(U, V)"] UVm by simp_all
  have UV': "UV' = fold ?f (filter (in_launch G B) after) (?f t UVm)"
    using fin UVm split t by (simp add: rd_kernel_launch_def)
  have a: "fst UV' idx = fst (?f t UVm) idx" "snd UV' idx = snd (?f t UVm) idx"
    using fold_rd_kernel_frame [OF na, of h dt dx Du Dv F k "?f t UVm"] UV' by simp_all
  have k: "?f t UVm = rd_kernel B t w h dt dx Du Dv F k (fst UVm, snd UVm)" by simp
  show "fst UV' idx = U idx + dt * (Du * calculateLaplacian dx (fst UVm) co (U idx) w h
                         - U idx * (V idx)\<^sup>2 + F * (1 - U idx))"
    unfolding a k rd_kernel_eq by (simp add: Let_def idx co m [unfolded idx] power2_eq_square)
  show "snd UV' idx = V idx + dt * (Dv * calculateLaplacian dx (snd UVm) co (V idx) w h
                         + U idx * (V idx)\<^sup>2 - (F + k) * V idx)"
    unfolding a k rd_kernel_eq by (simp add: Let_def idx co m [unfolded idx] power2_eq_square)
qed

lemma rd_ready:
  assumes "\<not> first_pass s" and "U_dev s = Some U" and "V_dev s = Some V"
    and "width mod 16 = 0" and "height mod 16 = 0" and "launch_ok e"
    and "UV' = rd_kernel_launch (schedule e) (make_uint2 (width div 16) (height div 16))
                 (make_uint2 16 16) width height 0.5 2
                 (0.0004 * (real (unat (width * height)) / 100))
                 (0.0002 * (real (unat (width * height)) / 100)) 0.012 0.052 (U, V)"
  shows "rd e width height result_devPtr s =
           (Returned (cudaMemcpy result_devPtr (fst UV') (unat (width * height))),
            s\<lparr>U_dev := Some (fst UV'), V_dev := Some (snd UV')\<rparr>)"
  using assms by (simp add: rd_def Let_def split: prod.splits)

lemma word_of_nat_tile:
  "(word_of_nat (a div 16) :: u32) * 16 + word_of_nat (a mod 16) = word_of_nat a"
proof -
  have "(word_of_nat (a div 16) :: u32) * 16 + word_of_nat (a mod 16)
          = word_of_nat (a div 16 * 16 + a mod 16)"
    by (simp only: of_nat_add of_nat_mult of_nat_numeral)
  then show ?thesis by simp
qed

lemma thread_of_co:
  "thread_co (make_uint2 16 16) (thread_of W i)
     = make_uint2 (word_of_nat (i mod W)) (word_of_nat (i div W))"
  by (simp add: thread_co_def thread_of_def word_of_nat_tile)

lemma thread_of_idx:
  fixes w h :: u32
  assumes "i < unat w * unat h" and "unat w * unat h \<le> 2 ^ 32"
  shows "thread_idx (make_uint2 16 16) w (thread_of (unat w) i) = i"
proof -
  have "(word_of_nat (i div unat w) :: u32) * w + word_of_nat (i mod unat w)
          = word_of_nat (i div unat w) * word_of_nat (unat w) + word_of_nat (i mod unat w)"
    by simp
  also have "\<dots> = word_of_nat (i div unat w * unat w + i mod unat w)"
    by (simp only: of_nat_add of_nat_mult)
  also have "\<dots> = word_of_nat i" by simp
  finally have "thread_idx (make_uint2 16 16) w (thread_of (unat w) i) = unat (word_of_nat i :: u32)"
    by (simp add: thread_idx_def thread_of_co)
  also have "\<dots> = i" using assms by (simp add: unat_of_nat)
  finally show ?thesis .
qed

lemma thread_of_in_launch:
  fixes w h :: u32
  assumes "i < unat w * unat h" and "w mod 16 = 0" and "h mod 16 = 0"
  shows "in_launch (make_uint2 (w div 16) (h div 16)) (make_uint2 16 16) (thread_of (unat w) i)"
proof -
  have wpos: "0 < unat w" using assms(1) by (cases "unat w") auto
  have W: "unat w mod 16 = 0" and H: "unat h mod 16 = 0"
    using assms(2,3) by (simp_all add: word_unat_eq_iff unat_mod)
  have X: "i mod unat w < unat w" using wpos by simp
  have Y: "i div unat w < unat h"
    using assms(1) by (simp add: less_mult_imp_div_less mult.commute)
  have lw: "unat w < 2 ^ 32" and lh: "unat h < 2 ^ 32"
    using unsigned_less [of w] unsigned_less [of h] by simp_all
  have bx: "i mod unat w div 16 < unat w div 16" using X W by (metis mod_0_imp_dvd dvd_div_mult_self less_mult_imp_div_less)
  have "by": "i div unat w div 16 < unat h div 16" using Y H by (metis mod_0_imp_dvd dvd_div_mult_self less_mult_imp_div_less)
  have u: "unat (word_of_nat a :: u32) = a" if "a < 2 ^ 32" for a
    using that by (simp add: unat_of_nat)
  have "unat (word_of_nat (i mod unat w div 16) :: u32) < unat (w div 16)"
    using bx lw by (simp add: u unat_div)
  moreover have "unat (word_of_nat (i div unat w div 16) :: u32) < unat (h div 16)"
    using "by" lh by (simp add: u unat_div)
  moreover have "unat (word_of_nat (i mod unat w mod 16) :: u32) < unat (16 :: u32)"
    by (simp add: u)
  moreover have "unat (word_of_nat (i div unat w mod 16) :: u32) < unat (16 :: u32)"
    by (simp add: u)
  ultimately show ?thesis
    by (simp add: in_launch_def thread_of_def word_less_nat_alt)
qed

lemma inj_thread_of_16: "inj_on (thread_of 16) {0..<256}"
proof (rule inj_on_inverseI [where g = "thread_idx (make_uint2 16 16) 16"])
  fix i :: nat
  assume "i \<in> {0..<256}"
  then show "thread_idx (make_uint2 16 16) 16 (thread_of 16 i) = i"
    using thread_of_idx [of i 16 16] by simp
qed

lemma distinct_hazard_schedule: "distinct hazard_schedule"
proof -
  have "distinct (16 # 32 # ([0..<16] @ [17..<32] @ [33..<256 :: nat]))"
    by (auto simp del: upt_rec_numeral)
  moreover have "inj_on (thread_of 16) (set (16 # 32 # ([0..<16] @ [17..<32] @ [33..<256])))"
    by (rule inj_on_subset [OF inj_thread_of_16]) (auto simp del: upt_rec_numeral)
  ultimately have "distinct (map (thread_of 16) (16 # 32 # ([0..<16] @ [17..<32] @ [33..<256])))"
    by (simp only: distinct_map simp_thms)
  then show ?thesis by (simp add: hazard_schedule_def del: upt_rec_numeral)
qed

lemma hazard_schedule_in_launch:
  "filter (in_launch (make_uint2 (16 div 16) (16 div 16)) (make_uint2 16 16)) hazard_schedule
     = hazard_schedule"
proof -
  have "in_launch (make_uint2 (16 div 16) (16 div 16)) (make_uint2 16 16) (thread_of 16 i)"
    if "i < 256" for i
    using thread_of_in_launch [of i 16 16] that by simp
  then show ?thesis
    by (auto simp add: hazard_schedule_def filter_id_conv simp del: upt_rec_numeral)
qed

lemma thread_16_in_launch:
  "in_launch (make_uint2 (16 div 16) (16 div 16)) (make_uint2 16 16) (thread_of 16 16)"
  by (simp add: in_launch_def thread_of_def)

lemma thread_32_in_launch:
  "in_launch (make_uint2 (16 div 16) (16 div 16)) (make_uint2 16 16) (thread_of 16 32)"
  by (simp add: in_launch_def thread_of_def)

section \<open>Claims about one step\<close>

text \<open>
  C3: for every cell, one step computes
  \<open>newU = U + dt * (Du * Laplacian(U) - U * V\<^sup>2 + F * (1 - U))\<close> and
  \<open>newV = V + dt * (Dv * Laplacian(V) + U * V\<^sup>2 - (F + k) * V)\<close> from the fields \<open>U\<close> and
  \<open>V\<close> of before the step, with \<open>dt = 0.5\<close>, \<open>dx = 2\<close>, \<open>F = 0.012\<close>, \<open>k = 0.052\<close>,
  \<open>Du = 0.0004 * (width * height / 100)\<close> and \<open>Dv = 0.0002 * (width * height / 100)\<close>.
  The kernel takes the cell's own values and the constants as the claim says, but it takes
  the Laplacian of the array as the thread finds it. In the example of C1 the thread of
  cell 16 runs first and its cell gets the value of the formula, \<open>0.006512\<close>; the thread of
  cell 32 then reads that new value as its upper neighbour, and cell 32 ends with
  \<open>0.999872833536\<close> where the formula on the fields of before the step gives \<open>0.999872\<close>.
\<close>

theorem rd_step_formula_hazard:
  "U_of (snd (rd env_hazard 16 16 zero_field pixel_state)) 16 = 0.006512
   \<and> pixel_field 16 + 0.5 * (0.0004 * (real (16 * 16) / 100)
          * calculateLaplacian 2 pixel_field (make_uint2 0 1) (pixel_field 16) 16 16
        - pixel_field 16 * (zero_field 16)\<^sup>2 + 0.012 * (1 - pixel_field 16)) = 0.006512
   \<and> U_of (snd (rd env_hazard 16 16 zero_field pixel_state)) 32 = 0.999872833536
   \<and> pixel_field 32 + 0.5 * (0.0004 * (real (16 * 16) / 100)
          * calculateLaplacian 2 pixel_field (make_uint2 0 2) (pixel_field 32) 16 16
        - pixel_field 32 * (zero_field 32)\<^sup>2 + 0.012 * (1 - pixel_field 32)) = 0.999872"
proof -
  define Du :: real where "Du = 0.0004 * (real (unat (16 * 16 :: u32)) / 100)"
  define Dv :: real where "Dv = 0.0002 * (real (unat (16 * 16 :: u32)) / 100)"
  define UV' where "UV' = rd_kernel_launch (schedule env_hazard)
                 (make_uint2 (16 div 16) (16 div 16))
                 (make_uint2 16 16) 16 16 0.5 2 Du Dv 0.012 0.052 (pixel_field, zero_field)"
  define UV0 where "UV0 = rd_kernel_launch [] (make_uint2 (16 div 16) (16 div 16))
                 (make_uint2 16 16) 16 16 0.5 2 Du Dv 0.012 0.052 (pixel_field, zero_field)"
  define UV1 where "UV1 = rd_kernel_launch [thread_of 16 16] (make_uint2 (16 div 16) (16 div 16))
                 (make_uint2 16 16) 16 16 0.5 2 Du Dv 0.012 0.052 (pixel_field, zero_field)"
  have r: "rd env_hazard 16 16 zero_field pixel_state =
           (Returned (cudaMemcpy zero_field (fst UV') (unat (16 * 16 :: u32))),
            pixel_state\<lparr>U_dev := Some (fst UV'), V_dev := Some (snd UV')\<rparr>)"
    by (rule rd_ready) (simp_all add: pixel_state_def env_hazard_def UV'_def Du_def Dv_def)
  have d: "distinct (schedule env_hazard)"
    using distinct_hazard_schedule by (simp add: env_hazard_def)
  have sp0: "schedule env_hazard = [] @ thread_of 16 16
              # (thread_of 16 32 # map (thread_of 16) ([0..<16] @ [17..<32] @ [33..<256]))"
    by (simp add: env_hazard_def hazard_schedule_def del: upt_rec_numeral)
  have sp1: "schedule env_hazard = [thread_of 16 16] @ thread_of 16 32
              # map (thread_of 16) ([0..<16] @ [17..<32] @ [33..<256])"
    by (simp add: env_hazard_def hazard_schedule_def del: upt_rec_numeral)
  have "fst UV' (thread_idx (make_uint2 16 16) 16 (thread_of 16 16))
          = pixel_field (thread_idx (make_uint2 16 16) 16 (thread_of 16 16))
            + 0.5 * (Du * calculateLaplacian 2 (fst UV0) (thread_co (make_uint2 16 16) (thread_of 16 16))
                       (pixel_field (thread_idx (make_uint2 16 16) 16 (thread_of 16 16))) 16 16
                 - pixel_field (thread_idx (make_uint2 16 16) 16 (thread_of 16 16))
                     * (zero_field (thread_idx (make_uint2 16 16) 16 (thread_of 16 16)))\<^sup>2
                 + 0.012 * (1 - pixel_field (thread_idx (make_uint2 16 16) 16 (thread_of 16 16))))"
    by (rule launch_cell(1) [OF d sp0 thread_16_in_launch _ UV0_def UV'_def refl refl]) simp
  then have c16: "fst UV' 16 = 0.006512"
    by (simp add: UV0_def Du_def rd_kernel_launch_def in_launch_def thread_of_def
        rd_kernel_def thread_co_def thread_idx_def calculateLaplacian_def Let_def
        pixel_field_def zero_field_def)
  have "fst UV' (thread_idx (make_uint2 16 16) 16 (thread_of 16 32))
          = pixel_field (thread_idx (make_uint2 16 16) 16 (thread_of 16 32))
            + 0.5 * (Du * calculateLaplacian 2 (fst UV1) (thread_co (make_uint2 16 16) (thread_of 16 32))
                       (pixel_field (thread_idx (make_uint2 16 16) 16 (thread_of 16 32))) 16 16
                 - pixel_field (thread_idx (make_uint2 16 16) 16 (thread_of 16 32))
                     * (zero_field (thread_idx (make_uint2 16 16) 16 (thread_of 16 32)))\<^sup>2
                 + 0.012 * (1 - pixel_field (thread_idx (make_uint2 16 16) 16 (thread_of 16 32))))"
    by (rule launch_cell(1) [OF d sp1 thread_32_in_launch _ UV1_def UV'_def refl refl]) simp
  then have c32: "fst UV' 32 = 0.999872833536"
    by (simp add: UV1_def Du_def rd_kernel_launch_def in_launch_def thread_of_def
        rd_kernel_def thread_co_def thread_idx_def calculateLaplacian_def Let_def
        pixel_field_def zero_field_def)
  have f16: "pixel_field 16 + 0.5 * (0.0004 * (real (16 * 16) / 100)
          * calculateLaplacian 2 pixel_field (make_uint2 0 1) (pixel_field 16) 16 16
        - pixel_field 16 * (zero_field 16)\<^sup>2 + 0.012 * (1 - pixel_field 16)) = 0.006512"
    by (simp add: calculateLaplacian_def Let_def pixel_field_def zero_field_def)
  have f32: "pixel_field 32 + 0.5 * (0.0004 * (real (16 * 16) / 100)
          * calculateLaplacian 2 pixel_field (make_uint2 0 2) (pixel_field 32) 16 16
        - pixel_field 32 * (zero_field 32)\<^sup>2 + 0.012 * (1 - pixel_field 32)) = 0.999872"
    by (simp add: calculateLaplacian_def Let_def pixel_field_def zero_field_def)
  have "U_of (snd (rd env_hazard 16 16 zero_field pixel_state)) = fst UV'"
    using r by (simp add: U_of_def)
  with c16 c32 f16 f32 show ?thesis by (simp only: simp_thms)
qed

theorem rd_step_formula_hazard_witness:
  "U_of (snd (rd env_hazard 16 16 zero_field pixel_state)) 32
     \<noteq> pixel_field 32 + 0.5 * (0.0004 * (real (16 * 16) / 100)
          * calculateLaplacian 2 pixel_field (make_uint2 0 2) (pixel_field 32) 16 16
        - pixel_field 32 * (zero_field 32)\<^sup>2 + 0.012 * (1 - pixel_field 32))"
proof -
  have "(0.999872833536 :: real) \<noteq> 0.999872" by simp
  with rd_step_formula_hazard show ?thesis by (simp only: simp_thms)
qed

text \<open>
  C1: every neighbour read of a step sees the value from before the step, so that the step
  equals the double-buffered reference step. The code keeps one copy of each field and has
  no barrier between the reads and the writes of different threads. Take a 16 by 16 grid
  with \<open>U = 1\<close> everywhere except \<open>U = 0\<close> at cell 16, and \<open>V = 0\<close>, and a complete
  schedule of the launch in which the thread of cell 16 runs first and the thread of cell
  32, the cell below it and in another warp, runs next. The thread of cell 32 reads, as its
  upper neighbour, the value \<open>0.006512\<close> that the thread of cell 16 has just written: the
  step leaves \<open>0.999872833536\<close> in cell 32 where the reference step gives \<open>0.999872\<close>.
\<close>

theorem rd_inplace_hazard:
  "distinct (schedule env_hazard) \<and> length (schedule env_hazard) = 256
   \<and> filter (in_launch (make_uint2 (16 div 16) (16 div 16)) (make_uint2 16 16))
        (schedule env_hazard) = schedule env_hazard
   \<and> U_of (snd (rd env_hazard 16 16 zero_field pixel_state)) 32 = 0.999872833536
   \<and> fst (reference_step 16 16 0.5 2 (0.0004 * (256 / 100)) (0.0002 * (256 / 100)) 0.012 0.052
           (pixel_field, zero_field)) 32 = 0.999872"
proof -
  define Du :: real where "Du = 0.0004 * (real (unat (16 * 16 :: u32)) / 100)"
  define Dv :: real where "Dv = 0.0002 * (real (unat (16 * 16 :: u32)) / 100)"
  define UV' where "UV' = rd_kernel_launch (schedule env_hazard)
                 (make_uint2 (16 div 16) (16 div 16))
                 (make_uint2 16 16) 16 16 0.5 2 Du Dv 0.012 0.052 (pixel_field, zero_field)"
  define UVm where "UVm = rd_kernel_launch [thread_of 16 16] (make_uint2 (16 div 16) (16 div 16))
                 (make_uint2 16 16) 16 16 0.5 2 Du Dv 0.012 0.052 (pixel_field, zero_field)"
  have r: "rd env_hazard 16 16 zero_field pixel_state =
           (Returned (cudaMemcpy zero_field (fst UV') (unat (16 * 16 :: u32))),
            pixel_state\<lparr>U_dev := Some (fst UV'), V_dev := Some (snd UV')\<rparr>)"
    by (rule rd_ready) (simp_all add: pixel_state_def env_hazard_def UV'_def Du_def Dv_def)
  have d: "distinct (schedule env_hazard)"
    using distinct_hazard_schedule by (simp add: env_hazard_def)
  have len: "length (schedule env_hazard) = 256"
    by (simp add: env_hazard_def hazard_schedule_def del: upt_rec_numeral)
  have all: "filter (in_launch (make_uint2 (16 div 16) (16 div 16)) (make_uint2 16 16))
               (schedule env_hazard) = schedule env_hazard"
    using hazard_schedule_in_launch by (simp add: env_hazard_def)
  have sp: "schedule env_hazard = [thread_of 16 16] @ thread_of 16 32
              # map (thread_of 16) ([0..<16] @ [17..<32] @ [33..<256])"
    by (simp add: env_hazard_def hazard_schedule_def del: upt_rec_numeral)
  have "fst UV' (thread_idx (make_uint2 16 16) 16 (thread_of 16 32))
          = pixel_field (thread_idx (make_uint2 16 16) 16 (thread_of 16 32))
            + 0.5 * (Du * calculateLaplacian 2 (fst UVm) (thread_co (make_uint2 16 16) (thread_of 16 32))
                       (pixel_field (thread_idx (make_uint2 16 16) 16 (thread_of 16 32))) 16 16
                 - pixel_field (thread_idx (make_uint2 16 16) 16 (thread_of 16 32))
                     * (zero_field (thread_idx (make_uint2 16 16) 16 (thread_of 16 32)))\<^sup>2
                 + 0.012 * (1 - pixel_field (thread_idx (make_uint2 16 16) 16 (thread_of 16 32))))"
    by (rule launch_cell(1) [OF d sp thread_32_in_launch _ UVm_def UV'_def refl refl]) simp
  then have "fst UV' 32 = 0.999872833536"
    by (simp add: UVm_def Du_def rd_kernel_launch_def in_launch_def thread_of_def
        rd_kernel_def thread_co_def thread_idx_def calculateLaplacian_def Let_def
        pixel_field_def zero_field_def)
  moreover have "fst (reference_step 16 16 0.5 2 (0.0004 * (256 / 100)) (0.0002 * (256 / 100))
                   0.012 0.052 (pixel_field, zero_field)) 32 = 0.999872"
    by (simp add: reference_step_def laplacian_periodic_def pixel_field_def zero_field_def)
  ultimately show ?thesis using r d len all by (simp add: U_of_def)
qed

theorem rd_inplace_hazard_witness:
  "U_of (snd (rd env_hazard 16 16 zero_field pixel_state)) 32
     \<noteq> fst (reference_step 16 16 0.5 2 (0.0004 * (256 / 100)) (0.0002 * (256 / 100)) 0.012 0.052
           (pixel_field, zero_field)) 32"
  using rd_inplace_hazard by simp

text \<open>
  C7: a step applied to the flat steady state, \<open>U = 1\<close> and \<open>V = 0\<close> at every cell of
  the grid, leaves both fields unchanged, for every grid whose dimensions are multiples of
  16 and for every schedule of the launch.
\<close>

theorem rd_flat_unchanged:
  assumes "\<not> first_pass s" and "U_dev s = Some U" and "V_dev s = Some V"
    and "\<forall>i < unat width * unat height. U i = 1 \<and> V i = 0"
    and "width mod 16 = 0" and "height mod 16 = 0"
    and "launch_ok e"
  shows "rd e width height result_devPtr s =
           (Returned (cudaMemcpy result_devPtr U (unat (width * height))), s)"
proof -
  have flat: "rd_kernel_launch (schedule e) (make_uint2 (width div 16) (height div 16))
                (make_uint2 16 16) width height dt dx Du Dv F k (U, V) = (U, V)"
    for dt dx Du Dv F k
    using assms(4) by (intro launch_flat) auto
  have "s\<lparr>U_dev := Some U, V_dev := Some V\<rparr> = s" using assms(2,3) by simp
  then show ?thesis
    using assms by (simp add: rd_def Let_def flat)
qed

theorem rd_flat_unchanged_witness:
  "rd env16 16 16 zero_field flat_state
     = (Returned (cudaMemcpy zero_field one_field 256), flat_state)"
  using rd_flat_unchanged [of flat_state one_field zero_field 16 16 env16 zero_field]
  by (simp add: flat_state_def one_field_def zero_field_def env16_def)

section \<open>The loops of the initialization\<close>

lemma round24_mono:
  assumes "m \<le> n"
  shows "round24 m \<le> round24 n"
proof -
  let ?sm = "excess m" and ?sn = "excess n"
  let ?qm = "m div 2 ^ ?sm" and ?qn = "n div 2 ^ ?sn"
  have s: "?sm \<le> ?sn" using assms by (rule excess_mono)
  show ?thesis
  proof (cases "?sm < ?sn")
    case True
    have "round24 m \<le> (?qm + 1) * 2 ^ ?sm" by (rule round24_le)
    also have "\<dots> \<le> 2 ^ 24 * 2 ^ ?sm"
      using excess_low [of m] by (intro mult_le_mono1) simp
    also have "\<dots> = 2 ^ 23 * 2 ^ Suc ?sm" by simp
    also have "\<dots> \<le> 2 ^ 23 * 2 ^ ?sn"
      using True by (intro mult_le_mono2 power_increasing) simp_all
    also have "\<dots> \<le> ?qn * 2 ^ ?sn"
      using excess_high [of n] True by (intro mult_le_mono1) simp
    also have "\<dots> \<le> round24 n" by (rule round24_ge)
    finally show ?thesis .
  next
    case False
    with s have e: "?sm = ?sn" by simp
    let ?s = "?sn"
    have q: "m div 2 ^ ?s \<le> n div 2 ^ ?s" using assms by (rule div_le_mono)
    show ?thesis
    proof (cases "m div 2 ^ ?s < n div 2 ^ ?s")
      case True
      have "round24 m \<le> (m div 2 ^ ?s + 1) * 2 ^ ?s" using round24_le [of m] e by simp
      also have "\<dots> \<le> (n div 2 ^ ?s) * 2 ^ ?s" using True by (intro mult_le_mono1) simp
      also have "\<dots> \<le> round24 n" by (rule round24_ge)
      finally show ?thesis .
    next
      case False
      with q have qe: "m div 2 ^ ?s = n div 2 ^ ?s" by simp
      have "m = (m div 2 ^ ?s) * 2 ^ ?s + m mod 2 ^ ?s" by (rule div_mult_mod_eq [symmetric])
      then have "m = (n div 2 ^ ?s) * 2 ^ ?s + m mod 2 ^ ?s" by (simp only: qe)
      moreover have "n = (n div 2 ^ ?s) * 2 ^ ?s + n mod 2 ^ ?s" by (rule div_mult_mod_eq [symmetric])
      ultimately have r: "m mod 2 ^ ?s \<le> n mod 2 ^ ?s" using assms by linarith
      show ?thesis
        using r by (auto simp add: round24_def Let_def e qe)
    qed
  qed
qed

lemma seed_test_down:
  assumes "i \<le> i'" and "seed_test i' n"
  shows "seed_test i n"
proof -
  have "round24 i * 2 ^ 24 \<le> round24 i' * 2 ^ 24"
    using round24_mono [OF assms(1)] by (rule mult_le_mono1)
  with assms(2) show ?thesis by (simp add: seed_test_def)
qed

lemma seed_test_less:
  assumes "seed_test i n"
  shows "i < n"
proof (rule ccontr)
  assume "\<not> i < n"
  then have ni: "n \<le> i" by simp
  define X where "X = round24 i"
  define R where "R = round24 n"
  define Y where "Y = round24 (8724152 * R)"
  have t: "X * 16777216 < Y"
    using assms by (simp add: seed_test_def mul_052f_def X_def Y_def R_def)
  have A: "8388608 * Y \<le> 8388609 * (8724152 * R)"
    using round24_upper [of "8724152 * R"] by (simp add: Y_def)
  have B: "8388608 * R \<le> 8388609 * n"
    using round24_upper [of n] by (simp add: R_def)
  have C: "8388607 * i \<le> 8388608 * X"
    using round24_lower [of i] by (simp add: X_def)
  from t A B C ni show False by linarith
qed

lemma fill_loop_cells:
  "fst (fill_loop n i k UV) c = (if k \<le> c \<and> c < k + (n - i) then 1 else fst UV c)
   \<and> snd (fill_loop n i k UV) c = (if k \<le> c \<and> c < k + (n - i) then 0 else snd UV c)"
proof (induction n i k UV rule: fill_loop.induct)
  case (1 n i k UV)
  show ?case
  proof (cases "i < n")
    case True
    with "1.IH" show ?thesis
      by (subst (1 2) fill_loop.simps) auto
  next
    case False
    then show ?thesis by (subst (1 2) fill_loop.simps) simp
  qed
qed

lemma if_absorb:
  fixes a a' :: real
  assumes "X \<longleftrightarrow> Z \<or> Y"
  shows "(if Y then a else (if Z then a else a')) = (if X then a else a')"
  using assms by auto

lemma seed_cols_cells:
  "fst (seed_cols w i j UV) c =
     (if \<exists>j'. j \<le> j' \<and> seed_test j' (unat w)
              \<and> c = unat (word_of_nat i * w + word_of_nat j')
      then 0.5 else fst UV c)
   \<and> snd (seed_cols w i j UV) c =
     (if \<exists>j'. j \<le> j' \<and> seed_test j' (unat w)
              \<and> c = unat (word_of_nat i * w + word_of_nat j')
      then 0.25 else snd UV c)"
proof (induction w i j UV rule: seed_cols.induct)
  case (1 w i j UV)
  let ?ix = "\<lambda>j'. unat (word_of_nat i * w + word_of_nat j')"
  let ?P = "\<lambda>j0. \<exists>j'. j0 \<le> j' \<and> seed_test j' (unat w) \<and> c = ?ix j'"
  let ?UV1 = "((fst UV)(?ix j := 0.5), (snd UV)(?ix j := 0.25))"
  show ?case
  proof (cases "seed_test j (unat w)")
    case True
    have split: "?P j \<longleftrightarrow> c = ?ix j \<or> ?P (j + 1)"
    proof
      assume "?P j"
      then obtain j' where j': "j \<le> j'" "seed_test j' (unat w)" "c = ?ix j'"
        by blast
      show "c = ?ix j \<or> ?P (j + 1)"
      proof (cases "j' = j")
        case True
        with j' show ?thesis by blast
      next
        case False
        with j' have "j + 1 \<le> j'" by simp
        with j' show ?thesis by blast
      qed
    next
      assume "c = ?ix j \<or> ?P (j + 1)"
      then show "?P j"
      proof
        assume "c = ?ix j"
        with True show "?P j" by blast
      next
        assume "?P (j + 1)"
        then obtain j' where j': "j + 1 \<le> j'" "seed_test j' (unat w)" "c = ?ix j'"
          by blast
        from j'(1) have "j \<le> j'" by simp
        with j'(2,3) show "?P j" by blast
      qed
    qed
    have unfold: "seed_cols w i j UV = seed_cols w i (j + 1) ?UV1"
      by (subst seed_cols.simps) (simp only: True if_True)
    have f1: "fst ?UV1 c = (if c = ?ix j then 0.5 else fst UV c)"
      and s1: "snd ?UV1 c = (if c = ?ix j then 0.25 else snd UV c)" by simp_all
    have "fst (seed_cols w i j UV) c = (if ?P (j + 1) then 0.5 else fst ?UV1 c)"
      unfolding unfold using "1.IH" [OF True] by blast
    also have "\<dots> = (if ?P j then 0.5 else fst UV c)"
      unfolding f1 by (rule if_absorb [OF split])
    finally have A: "fst (seed_cols w i j UV) c = (if ?P j then 0.5 else fst UV c)" .
    have "snd (seed_cols w i j UV) c = (if ?P (j + 1) then 0.25 else snd ?UV1 c)"
      unfolding unfold using "1.IH" [OF True] by blast
    also have "\<dots> = (if ?P j then 0.25 else snd UV c)"
      unfolding s1 by (rule if_absorb [OF split])
    finally have B: "snd (seed_cols w i j UV) c = (if ?P j then 0.25 else snd UV c)" .
    from A B show ?thesis by blast
  next
    case False
    have "\<not> ?P j"
    proof
      assume "?P j"
      then obtain j' where j': "j \<le> j'" "seed_test j' (unat w)" by blast
      with False show False using seed_test_down by blast
    qed
    moreover have "seed_cols w i j UV = UV"
      by (subst seed_cols.simps) (simp only: False if_False)
    ultimately show ?thesis by (simp only: if_False simp_thms)
  qed
qed

lemma seed_rows_cells:
  "fst (seed_rows w h i UV) c =
     (if \<exists>i' j'. i \<le> i' \<and> seed_test i' (unat h)
              \<and> seed_first (unat w) \<le> j' \<and> seed_test j' (unat w)
              \<and> c = unat (word_of_nat i' * w + word_of_nat j')
      then 0.5 else fst UV c)
   \<and> snd (seed_rows w h i UV) c =
     (if \<exists>i' j'. i \<le> i' \<and> seed_test i' (unat h)
              \<and> seed_first (unat w) \<le> j' \<and> seed_test j' (unat w)
              \<and> c = unat (word_of_nat i' * w + word_of_nat j')
      then 0.25 else snd UV c)"
proof (induction w h i UV rule: seed_rows.induct)
  case (1 w h i UV)
  let ?j0 = "seed_first (unat w)"
  let ?Q = "\<lambda>i'. \<exists>j'. ?j0 \<le> j' \<and> seed_test j' (unat w)
              \<and> c = unat (word_of_nat i' * w + word_of_nat j')"
  let ?P = "\<lambda>i0. \<exists>i' j'. i0 \<le> i' \<and> seed_test i' (unat h)
              \<and> ?j0 \<le> j' \<and> seed_test j' (unat w)
              \<and> c = unat (word_of_nat i' * w + word_of_nat j')"
  let ?UV1 = "seed_cols w i ?j0 UV"
  show ?case
  proof (cases "seed_test i (unat h)")
    case True
    have split: "?P i \<longleftrightarrow> ?Q i \<or> ?P (i + 1)"
    proof
      assume "?P i"
      then obtain i' j' where r: "i \<le> i'" "seed_test i' (unat h)"
        and q: "?j0 \<le> j'" "seed_test j' (unat w)"
          "c = unat (word_of_nat i' * w + word_of_nat j')"
        by blast
      show "?Q i \<or> ?P (i + 1)"
      proof (cases "i' = i")
        case True
        with q show ?thesis by blast
      next
        case False
        with r have "i + 1 \<le> i'" by simp
        with r q show ?thesis by blast
      qed
    next
      assume "?Q i \<or> ?P (i + 1)"
      then show "?P i"
      proof
        assume "?Q i"
        with True show "?P i" by blast
      next
        assume "?P (i + 1)"
        then obtain i' j' where r: "i + 1 \<le> i'" "seed_test i' (unat h)"
          and q: "?j0 \<le> j'" "seed_test j' (unat w)"
            "c = unat (word_of_nat i' * w + word_of_nat j')"
          by blast
        from r(1) have "i \<le> i'" by simp
        with r(2) q show "?P i" by blast
      qed
    qed
    have unfold: "seed_rows w h i UV = seed_rows w h (i + 1) ?UV1"
      by (subst seed_rows.simps) (simp only: True if_True)
    have f1: "fst ?UV1 c = (if ?Q i then 0.5 else fst UV c)"
      and s1: "snd ?UV1 c = (if ?Q i then 0.25 else snd UV c)"
      using seed_cols_cells [of w i ?j0 UV c] by blast+
    have "fst (seed_rows w h i UV) c = (if ?P (i + 1) then 0.5 else fst ?UV1 c)"
      unfolding unfold using "1.IH" [OF True] by blast
    also have "\<dots> = (if ?P i then 0.5 else fst UV c)"
      unfolding f1 by (rule if_absorb [OF split])
    finally have A: "fst (seed_rows w h i UV) c = (if ?P i then 0.5 else fst UV c)" .
    have "snd (seed_rows w h i UV) c = (if ?P (i + 1) then 0.25 else snd ?UV1 c)"
      unfolding unfold using "1.IH" [OF True] by blast
    also have "\<dots> = (if ?P i then 0.25 else snd UV c)"
      unfolding s1 by (rule if_absorb [OF split])
    finally have B: "snd (seed_rows w h i UV) c = (if ?P i then 0.25 else snd UV c)" .
    from A B show ?thesis by blast
  next
    case False
    have "\<not> ?P i"
    proof
      assume "?P i"
      then obtain i' where i': "i \<le> i'" "seed_test i' (unat h)" by blast
      with False show False using seed_test_down by blast
    qed
    moreover have "seed_rows w h i UV = UV"
      by (subst seed_rows.simps) (simp only: False if_False)
    ultimately show ?thesis by (simp only: if_False simp_thms)
  qed
qed

lemma seed_index:
  fixes w h :: u32
  assumes "unat w * unat h \<le> 2 ^ 32"
    and "seed_test i (unat h)" and "seed_test j (unat w)"
  shows "unat (word_of_nat i * w + word_of_nat j) = i * unat w + j"
    and "i < unat h" and "j < unat w"
proof -
  show i: "i < unat h" using assms(2) by (rule seed_test_less)
  show j: "j < unat w" using assms(3) by (rule seed_test_less)
  have lw: "unat w < 2 ^ 32" and lh: "unat h < 2 ^ 32"
    using unsigned_less [of w] unsigned_less [of h] by simp_all
  have ui: "unat (word_of_nat i :: u32) = i" using i lh by (simp add: unat_of_nat)
  have uj: "unat (word_of_nat j :: u32) = j" using j lw by (simp add: unat_of_nat)
  have "i * unat w + j < unat w * unat h" using i j by (rule cell_bound)
  with assms(1) have "i * unat w + j < 2 ^ 32" by linarith
  then show "unat (word_of_nat i * w + word_of_nat j) = i * unat w + j"
    using unat_linear [of "word_of_nat i" w "word_of_nat j"] by (simp add: ui uj)
qed

lemma seeded_iff:
  fixes w h :: u32
  assumes "unat w * unat h \<le> 2 ^ 32"
  shows "(\<exists>i' j'. seed_first (unat h) \<le> i' \<and> seed_test i' (unat h)
              \<and> seed_first (unat w) \<le> j' \<and> seed_test j' (unat w)
              \<and> c = unat (word_of_nat i' * w + word_of_nat j'))
         \<longleftrightarrow> seeded (unat w) (unat h) c"
proof
  assume "\<exists>i' j'. seed_first (unat h) \<le> i' \<and> seed_test i' (unat h)
              \<and> seed_first (unat w) \<le> j' \<and> seed_test j' (unat w)
              \<and> c = unat (word_of_nat i' * w + word_of_nat j')"
  then obtain i' j' where r: "seed_first (unat h) \<le> i'" "seed_test i' (unat h)"
    and q: "seed_first (unat w) \<le> j'" "seed_test j' (unat w)"
    and c: "c = unat (word_of_nat i' * w + word_of_nat j')"
    by blast
  note ix = seed_index [OF assms r(2) q(2)]
  have c': "c = i' * unat w + j'" using c ix(1) by simp
  have "c div unat w = i'" "c mod unat w = j'" using ix(3) by (simp_all add: c')
  with r q show "seeded (unat w) (unat h) c" by (simp only: seeded_def simp_thms)
next
  assume s: "seeded (unat w) (unat h) c"
  let ?i = "c div unat w" and ?j = "c mod unat w"
  from s have r: "seed_first (unat h) \<le> ?i" "seed_test ?i (unat h)"
    and q: "seed_first (unat w) \<le> ?j" "seed_test ?j (unat w)"
    unfolding seeded_def by blast+
  note ix = seed_index [OF assms r(2) q(2)]
  have "c = unat (word_of_nat ?i * w + word_of_nat ?j)" using ix(1) by simp
  with r q show "\<exists>i' j'. seed_first (unat h) \<le> i' \<and> seed_test i' (unat h)
              \<and> seed_first (unat w) \<le> j' \<and> seed_test j' (unat w)
              \<and> c = unat (word_of_nat i' * w + word_of_nat j')"
    by blast
qed

lemma seeded_less:
  assumes "seeded W H c"
  shows "c < W * H"
proof -
  from assms have i: "seed_test (c div W) H" and j: "seed_test (c mod W) W"
    unfolding seeded_def by blast+
  have i': "c div W < H" using i by (rule seed_test_less)
  have j': "c mod W < W" using j by (rule seed_test_less)
  have "c div W * W + c mod W < W * H" using i' j' by (rule cell_bound)
  then show ?thesis by simp
qed

lemma seeded_fields_cells:
  fixes w h :: u32
  assumes "unat w * unat h < 2 ^ 32"
  shows "fst (seeded_fields e w h) c =
           (if seeded (unat w) (unat h) c then 0.5
            else if c < unat w * unat h then 1 else garbage e c)"
    and "snd (seeded_fields e w h) c =
           (if seeded (unat w) (unat h) c then 0.25
            else if c < unat w * unat h then 0 else garbage e c)"
proof -
  have n: "unat (w * h) = unat w * unat h"
    using assms by (simp add: unat_word_ariths)
  have le: "unat w * unat h \<le> 2 ^ 32" using assms by simp
  note fill = fill_loop_cells [of "unat w * unat h" 0 0 "(garbage e, garbage e)" c]
  note rows = seed_rows_cells [of w h "seed_first (unat h)"
      "fill_loop (unat w * unat h) 0 0 (garbage e, garbage e)" c, unfolded seeded_iff [OF le]]
  show "fst (seeded_fields e w h) c =
           (if seeded (unat w) (unat h) c then 0.5
            else if c < unat w * unat h then 1 else garbage e c)"
    unfolding seeded_fields_def n using rows fill by simp
  show "snd (seeded_fields e w h) c =
           (if seeded (unat w) (unat h) c then 0.25
            else if c < unat w * unat h then 0 else garbage e c)"
    unfolding seeded_fields_def n using rows fill by simp
qed

lemma perturb_loop_fold:
  "perturb_loop e n k s = fold (perturb_cell e) [k..<n] s"
proof (induction e n k s rule: perturb_loop.induct)
  case (1 e n k s)
  show ?case
  proof (cases "k < n")
    case True
    then have "[k..<n] = k # [k + 1..<n]" by (simp add: upt_conv_Cons)
    with True "1.IH" show ?thesis by (subst perturb_loop.simps) simp
  next
    case False
    then show ?thesis by (subst perturb_loop.simps) simp
  qed
qed

lemma perturb_fold_cells:
  "fold (perturb_cell e) [0..<m] (U, V, rc) =
     (\<lambda>c. if c < m \<and> U c < 1 then U c + rRand e (rc + draws U V c) * U c else U c,
      \<lambda>c. if c < m \<and> V c < 1
           then V c + rRand e (rc + draws U V c + (if U c < 1 then 1 else 0)) * V c else V c,
      rc + draws U V m)"
proof (induction m)
  case 0
  then show ?case by simp
next
  case (Suc m)
  have "fold (perturb_cell e) [0..<Suc m] (U, V, rc)
          = perturb_cell e m (fold (perturb_cell e) [0..<m] (U, V, rc))"
    by simp
  also have "\<dots> = perturb_cell e m
     (\<lambda>c. if c < m \<and> U c < 1 then U c + rRand e (rc + draws U V c) * U c else U c,
      \<lambda>c. if c < m \<and> V c < 1
           then V c + rRand e (rc + draws U V c + (if U c < 1 then 1 else 0)) * V c else V c,
      rc + draws U V m)"
    by (simp only: Suc)
  also have "\<dots> =
     (\<lambda>c. if c < Suc m \<and> U c < 1 then U c + rRand e (rc + draws U V c) * U c else U c,
      \<lambda>c. if c < Suc m \<and> V c < 1
           then V c + rRand e (rc + draws U V c + (if U c < 1 then 1 else 0)) * V c else V c,
      rc + draws U V (Suc m))"
    by (auto simp add: perturb_cell_def fun_eq_iff less_Suc_eq)
  finally show ?case .
qed

lemma perturb_loop_cells:
  "perturb_loop e n 0 (U, V, rc) =
     (\<lambda>c. if c < n \<and> U c < 1 then U c + rRand e (rc + draws U V c) * U c else U c,
      \<lambda>c. if c < n \<and> V c < 1
           then V c + rRand e (rc + draws U V c + (if U c < 1 then 1 else 0)) * V c else V c,
      rc + draws U V n)"
  by (simp only: perturb_loop_fold perturb_fold_cells)

lemma rRand_bounds:
  assumes "rand_ok e"
  shows "- 0.01 \<le> rRand e n" and "rRand e n \<le> 0.01"
proof -
  let ?r = "real_of_int (rand_seq e n)" and ?m = "real_of_int (rand_max e)"
  from assms have m: "0 < ?m" and r: "0 \<le> ?r" "?r \<le> ?m"
    by (simp_all add: rand_ok_def)
  have q0: "0 \<le> ?r / ?m" using m r by simp
  have q1: "?r / ?m \<le> 1" using m r by simp
  have eq: "rRand e n = 0.02 * (?r / ?m) - 0.01" by (simp add: rRand_def)
  show "- 0.01 \<le> rRand e n" unfolding eq using q0 by simp
  show "rRand e n \<le> 0.01" unfolding eq using q1 by simp
qed

lemma initializeConcentrations_cells:
  fixes w h :: u32
  assumes "unat w * unat h < 2 ^ 32"
    and "(hU, hV) = seeded_fields e w h"
    and "(U', V', rc') = initializeConcentrations e w h U V rc"
  shows "U' c = (if c < unat w * unat h
                 then (if hU c < 1 then hU c + rRand e (rc + draws hU hV c) * hU c else hU c)
                 else U c)"
    and "V' c = (if c < unat w * unat h
                 then (if hV c < 1
                       then hV c + rRand e (rc + draws hU hV c + (if hU c < 1 then 1 else 0)) * hV c
                       else hV c)
                 else V c)"
    and "rc' = rc + draws hU hV (unat w * unat h)"
proof -
  have n: "unat (w * h) = unat w * unat h"
    using assms(1) by (simp add: unat_word_ariths)
  have h: "fst (seeded_fields e w h) = hU" "snd (seeded_fields e w h) = hV"
    using assms(2) by (metis fst_conv, metis snd_conv)
  have "(U', V', rc') =
          (cudaMemcpy U (\<lambda>c. if c < unat w * unat h \<and> hU c < 1
                             then hU c + rRand e (rc + draws hU hV c) * hU c else hU c)
             (unat w * unat h),
           cudaMemcpy V (\<lambda>c. if c < unat w * unat h \<and> hV c < 1
                             then hV c + rRand e (rc + draws hU hV c + (if hU c < 1 then 1 else 0)) * hV c
                             else hV c)
             (unat w * unat h),
           rc + draws hU hV (unat w * unat h))"
    using assms(3) by (simp add: initializeConcentrations_def n h perturb_loop_cells)
  then show "U' c = (if c < unat w * unat h
                 then (if hU c < 1 then hU c + rRand e (rc + draws hU hV c) * hU c else hU c)
                 else U c)"
    and "V' c = (if c < unat w * unat h
                 then (if hV c < 1
                       then hV c + rRand e (rc + draws hU hV c + (if hU c < 1 then 1 else 0)) * hV c
                       else hV c)
                 else V c)"
    and "rc' = rc + draws hU hV (unat w * unat h)"
    by (simp_all add: cudaMemcpy_def)
qed

lemma abs_bound:
  fixes x b :: real
  assumes "- b \<le> x" and "x \<le> b"
  shows "\<bar>x\<bar> \<le> b"
  using assms by linarith

lemma scaled_bound:
  fixes u a r b :: real
  assumes "u = a + r * a" and "\<bar>r\<bar> \<le> b" and "0 \<le> a"
  shows "\<bar>u - a\<bar> \<le> b * a"
proof -
  have "u - a = r * a" using assms(1) by simp
  then have "\<bar>u - a\<bar> = \<bar>r\<bar> * a" using assms(3) by (simp add: abs_mult)
  also have "\<dots> \<le> b * a" using assms(2,3) by (rule mult_right_mono)
  finally show ?thesis .
qed

lemma rand_ok_env16: "rand_ok env16"
proof -
  have "0 \<le> x mod 2147483648 \<and> x mod 2147483648 \<le> 2147483647" for x :: int
  proof -
    have "0 \<le> x mod 2147483648" "x mod 2147483648 < 2147483648" by simp_all
    then show ?thesis by linarith
  qed
  then show ?thesis by (simp add: rand_ok_def env16_def)
qed

lemma init_outside:
  fixes width height :: u32
  assumes "unat width * unat height < 2 ^ 32"
    and "c < unat width * unat height"
    and "\<not> seeded (unat width) (unat height) c"
  shows "fst (initializeConcentrations e width height U V rc) c = 1"
    and "fst (snd (initializeConcentrations e width height U V rc)) c = 0"
proof -
  let ?hU = "fst (seeded_fields e width height)" and ?hV = "snd (seeded_fields e width height)"
  let ?r = "initializeConcentrations e width height U V rc"
  have hU: "?hU c = 1" and hV: "?hV c = 0"
    using seeded_fields_cells [OF assms(1), of e c] assms(2,3) by simp_all
  have h: "(?hU, ?hV) = seeded_fields e width height" by simp
  have r: "(fst ?r, fst (snd ?r), snd (snd ?r)) = ?r" by simp
  note cells = initializeConcentrations_cells(1,2) [OF assms(1) h r, of c]
  show "fst ?r c = 1" using cells(1) assms(2) hU by simp
  show "fst (snd ?r) c = 0" using cells(2) assms(2) hU hV by simp
qed

text \<open>The equations that evaluate the seed bounds on numerals.\<close>

lemmas seed_eval =
  seeded_def seed_first_def seed_test_def mul_048f_def mul_052f_def round24_def Let_def
  excess.simps

text \<open>The two constants are the binary32 numbers nearest to 0.48 and to 0.52.\<close>

lemma float_constants:
  "\<bar>0.48 - 16106127 / 2 ^ 25\<bar> \<le> (1 / 2) / (2 ^ 25 :: real)
   \<and> \<bar>0.52 - 8724152 / 2 ^ 24\<bar> \<le> (1 / 2) / (2 ^ 24 :: real)"
  by simp

text \<open>The first seeded index, the last one and the one after it, for some sizes.\<close>

lemma seed_bounds_examples:
  "seed_first 16 = 7 \<and> seed_test 8 16 \<and> \<not> seed_test 9 16"
  "seed_first 1008252 = 483960 \<and> seed_test 524290 1008252 \<and> \<not> seed_test 524291 1008252"
  "seed_first 1008352 = 484008 \<and> seed_test 524342 1008352 \<and> \<not> seed_test 524343 1008352"
  "seed_first 33554486 = 16106154 \<and> seed_test 17448333 33554486 \<and> \<not> seed_test 17448334 33554486"
  "seed_first 34952544 = 16777220 \<and> seed_test 18175321 34952544 \<and> \<not> seed_test 18175322 34952544"
  by (simp_all add: seed_eval)

lemma init_seeded:
  fixes width height :: u32
  assumes "rand_ok e" and "unat width * unat height < 2 ^ 32"
    and "seeded (unat width) (unat height) c"
  shows "\<bar>fst (initializeConcentrations e width height U V rc) c - 0.5\<bar> \<le> 0.005"
    and "\<bar>fst (snd (initializeConcentrations e width height U V rc)) c - 0.25\<bar> \<le> 0.0025"
proof -
  let ?hU = "fst (seeded_fields e width height)" and ?hV = "snd (seeded_fields e width height)"
  let ?i = "initializeConcentrations e width height U V rc"
  have c: "c < unat width * unat height" using assms(3) by (rule seeded_less)
  have hU: "?hU c = 0.5" and hV: "?hV c = 0.25"
    using seeded_fields_cells [OF assms(2), of e c] assms(3) by simp_all
  have h: "(?hU, ?hV) = seeded_fields e width height" by simp
  have r: "(fst ?i, fst (snd ?i), snd (snd ?i)) = ?i" by simp
  note cells = initializeConcentrations_cells(1,2) [OF assms(2) h r, of c]
  let ?r = "rRand e (rc + draws ?hU ?hV c)" and ?q = "rRand e (rc + draws ?hU ?hV c + 1)"
  have rb: "\<bar>?r\<bar> \<le> 0.01" and qb: "\<bar>?q\<bar> \<le> 0.01"
    using rRand_bounds [OF assms(1)] by (blast intro: abs_bound)+
  have "fst ?i c = 0.5 + ?r * 0.5" using cells(1) c hU by simp
  then have "\<bar>fst ?i c - 0.5\<bar> \<le> 0.01 * 0.5" using rb by (rule scaled_bound) simp
  also have "0.01 * 0.5 = (0.005 :: real)" by simp
  finally show "\<bar>fst ?i c - 0.5\<bar> \<le> 0.005" .
  have "fst (snd ?i) c = 0.25 + ?q * 0.25" using cells(2) c hU hV by simp
  then have "\<bar>fst (snd ?i) c - 0.25\<bar> \<le> 0.01 * 0.25" using qb by (rule scaled_bound) simp
  also have "0.01 * 0.25 = (0.0025 :: real)" by simp
  finally show "\<bar>fst (snd ?i) c - 0.25\<bar> \<le> 0.0025" .
qed

section \<open>Claims about the initialization\<close>

text \<open>
  C5, as stated: before the perturbation, \<open>U = 0.5\<close> and \<open>V = 0.25\<close> exactly at the
  cells whose row and column lie in the fractional range \<open>[0.48, 0.52)\<close> of the height
  and the width, and \<open>U = 1\<close>, \<open>V = 0\<close> at all other cells. The loops start at the
  truncation of \<^verbatim>\<open>(0.48f)*height\<close> and \<^verbatim>\<open>(0.48f)*width\<close>: on a 16 by 16 grid
  they start at row 7 and column 7, and \<open>7 < 0.48 * 16 = 7.68\<close>. Cell 119, row 7 and
  column 7, is outside the fractional range and holds \<open>U = 0.5\<close>.
\<close>

theorem seeded_fields_counterexample:
  "fst (seeded_fields env16 16 16) 119 = 0.5 \<and> \<not> in_central_patch 16 16 119"
  using seeded_fields_cells(1) [of 16 16 env16 119]
  by (simp add: seed_eval in_central_patch_def)

text \<open>
  C5, amended: before the perturbation, on a grid with fewer than \<open>2^31\<close> cells, a cell
  of the grid holds \<open>U = 0.5\<close> and \<open>V = 0.25\<close> when its row \<open>i\<close> satisfies
  \<^verbatim>\<open>(int)((0.48f)*height) <= i\<close> and \<^verbatim>\<open>i < (0.52f)*height\<close> and its column \<open>j\<close>
  satisfies \<^verbatim>\<open>(int)((0.48f)*width) <= j\<close> and \<^verbatim>\<open>j < (0.52f)*width\<close>, the products
  and the comparisons being those of binary32, and holds \<open>U = 1\<close> and \<open>V = 0\<close> otherwise.
\<close>

theorem seeded_fields_patch:
  fixes width height :: u32
  assumes "unat width * unat height < 2 ^ 31" and "idx < unat width * unat height"
    and "row = idx div unat width" and "col = idx mod unat width"
  shows "fst (seeded_fields e width height) idx
           = (if seed_first (unat height) \<le> row \<and> seed_test row (unat height)
                 \<and> seed_first (unat width) \<le> col \<and> seed_test col (unat width)
              then 0.5 else 1)
       \<and> snd (seeded_fields e width height) idx
           = (if seed_first (unat height) \<le> row \<and> seed_test row (unat height)
                 \<and> seed_first (unat width) \<le> col \<and> seed_test col (unat width)
              then 0.25 else 0)"
proof -
  have "unat width * unat height < 2 ^ 32" using assms(1) by simp
  from seeded_fields_cells [OF this, of e idx] assms(2) show ?thesis
    by (simp add: seeded_def assms(3,4))
qed

theorem seeded_fields_patch_witness:
  "fst (seeded_fields env16 16 16) 119 = 0.5 \<and> snd (seeded_fields env16 16 16) 119 = 0.25
   \<and> fst (seeded_fields env16 16 16) 0 = 1 \<and> snd (seeded_fields env16 16 16) 0 = 0
   \<and> fst (seeded_fields env16 16 1008352) 8389480 = 0.5
   \<and> fst (seeded_fields env16 16 1008352) 8389496 = 1"
  using seeded_fields_patch [of 16 16 119 _ _ env16, OF _ _ refl refl]
    seeded_fields_patch [of 16 16 0 _ _ env16, OF _ _ refl refl]
    seeded_fields_patch [of 16 1008352 8389480 _ _ env16, OF _ _ refl refl]
    seeded_fields_patch [of 16 1008352 8389496 _ _ env16, OF _ _ refl refl]
  by (simp add: seed_eval)

text \<open>
  C6, as stated: the perturbation replaces every value \<open>v\<close> below 1 by \<open>v + r * v\<close> with
  \<open>r\<close> in \<open>[-0.01, 0.01]\<close>, so that every cell inside the seeded patch, the rows and
  columns in the fractional range \<open>[0.48, 0.52)\<close>, ends with \<open>\<bar>U - 0.5\<bar> \<le> 0.005\<close> and
  \<open>\<bar>V - 0.25\<bar> \<le> 0.0025\<close>. On a grid of width 16 and height 1008352, row 524343 is in
  the fractional range, since \<open>0.52 * 1008352 = 524343.04\<close>, but the binary32 product
  \<^verbatim>\<open>(0.52f)*height\<close> is \<open>524343\<close> and the row loop stops after row 524342. Cell
  8389496, row 524343 and column 8, is never seeded and ends with \<open>U = 1\<close> and \<open>V = 0\<close>.
\<close>

theorem perturbation_counterexample:
  "in_central_patch 16 1008352 8389496
   \<and> fst (initializeConcentrations env16 16 1008352 zero_field zero_field 0) 8389496 = 1
   \<and> fst (snd (initializeConcentrations env16 16 1008352 zero_field zero_field 0)) 8389496 = 0
   \<and> \<not> \<bar>fst (initializeConcentrations env16 16 1008352 zero_field zero_field 0) 8389496 - 0.5\<bar>
         \<le> 0.005"
proof -
  have p: "in_central_patch 16 1008352 8389496" by (simp add: in_central_patch_def)
  have u: "fst (initializeConcentrations env16 16 1008352 zero_field zero_field 0) 8389496 = 1"
    by (rule init_outside(1)) (simp_all add: seed_eval)
  have v: "fst (snd (initializeConcentrations env16 16 1008352 zero_field zero_field 0)) 8389496 = 0"
    by (rule init_outside(2)) (simp_all add: seed_eval)
  have "\<not> \<bar>fst (initializeConcentrations env16 16 1008352 zero_field zero_field 0) 8389496 - 0.5\<bar>
         \<le> 0.005"
    unfolding u by simp
  with p u v show ?thesis by blast
qed

text \<open>
  C6, amended: on a grid with fewer than \<open>2^31\<close> cells, the perturbation replaces the
  value \<open>v\<close> of every cell of \<open>U\<close> and of \<open>V\<close> that is below 1 by \<open>v + r * v\<close>, where
  \<open>r = 0.02 * rand() / RAND_MAX - 0.01\<close> for the next call of \<^verbatim>\<open>rand()\<close>, a call of
  its own for \<open>U\<close> and for \<open>V\<close>, and \<open>r\<close> lies in \<open>[-0.01, 0.01]\<close>; so, for every
  sequence of draws, every cell that the seed loops write (see C5) ends with
  \<open>\<bar>U - 0.5\<bar> \<le> 0.005\<close> and \<open>\<bar>V - 0.25\<bar> \<le> 0.0025\<close>.
\<close>

theorem perturbation_bounds:
  fixes width height :: u32
  assumes "rand_ok e" and "unat width * unat height < 2 ^ 31"
    and "(hU, hV) = seeded_fields e width height"
    and "(U', V', rc') = initializeConcentrations e width height U V rc"
    and "c < unat width * unat height"
    and "nU = rc + draws hU hV c" and "nV = rc + draws hU hV c + (if hU c < 1 then 1 else 0)"
    and "rU = 0.02 * real_of_int (rand_seq e nU) / real_of_int (rand_max e) - 0.01"
    and "rV = 0.02 * real_of_int (rand_seq e nV) / real_of_int (rand_max e) - 0.01"
    and "row = c div unat width" and "col = c mod unat width"
  shows "U' c = (if hU c < 1 then hU c + rU * hU c else hU c)
       \<and> V' c = (if hV c < 1 then hV c + rV * hV c else hV c)
       \<and> - 0.01 \<le> rU \<and> rU \<le> 0.01 \<and> - 0.01 \<le> rV \<and> rV \<le> 0.01
       \<and> (hU c < 1 \<and> hV c < 1 \<longrightarrow> nU \<noteq> nV)
       \<and> (seed_first (unat height) \<le> row \<and> seed_test row (unat height)
            \<and> seed_first (unat width) \<le> col \<and> seed_test col (unat width)
            \<longrightarrow> \<bar>U' c - 0.5\<bar> \<le> 0.005 \<and> \<bar>V' c - 0.25\<bar> \<le> 0.0025)"
proof -
  have fit: "unat width * unat height < 2 ^ 32" using assms(2) by simp
  note cells = initializeConcentrations_cells(1,2) [OF fit assms(3,4), of c]
  have rU: "rU = rRand e nU" and rV: "rV = rRand e nV"
    by (simp_all add: assms(8,9) rRand_def)
  have U: "U' c = (if hU c < 1 then hU c + rU * hU c else hU c)"
    using cells(1) assms(5) by (simp add: rU assms(6))
  have V: "V' c = (if hV c < 1 then hV c + rV * hV c else hV c)"
    using cells(2) assms(5) by (simp add: rV assms(7))
  have R: "- 0.01 \<le> rU \<and> rU \<le> 0.01 \<and> - 0.01 \<le> rV \<and> rV \<le> 0.01"
    unfolding rU rV using rRand_bounds [OF assms(1)] by blast
  have N: "hU c < 1 \<and> hV c < 1 \<longrightarrow> nU \<noteq> nV"
    by (simp add: assms(6,7))
  have B: "\<bar>U' c - 0.5\<bar> \<le> 0.005 \<and> \<bar>V' c - 0.25\<bar> \<le> 0.0025"
    if "seed_first (unat height) \<le> row \<and> seed_test row (unat height)
            \<and> seed_first (unat width) \<le> col \<and> seed_test col (unat width)"
  proof -
    from that have s: "seeded (unat width) (unat height) c"
      by (simp add: seeded_def assms(10,11))
    have "U' = fst (initializeConcentrations e width height U V rc)"
      "V' = fst (snd (initializeConcentrations e width height U V rc))"
      using assms(4) by (metis fst_conv, metis fst_conv snd_conv)
    with init_seeded [OF assms(1) fit s, of U V rc] show ?thesis by simp
  qed
  from U V R N B show ?thesis by blast
qed

theorem perturbation_bounds_witness:
  "\<bar>fst (initializeConcentrations env16 16 16 zero_field zero_field 0) 119 - 0.5\<bar> \<le> 0.005
   \<and> \<bar>fst (snd (initializeConcentrations env16 16 16 zero_field zero_field 0)) 119 - 0.25\<bar> \<le> 0.0025"
  using perturbation_bounds [of env16 16 16 "fst (seeded_fields env16 16 16)"
      "snd (seeded_fields env16 16 16)"
      "fst (initializeConcentrations env16 16 16 zero_field zero_field 0)"
      "fst (snd (initializeConcentrations env16 16 16 zero_field zero_field 0))"
      "snd (snd (initializeConcentrations env16 16 16 zero_field zero_field 0))"
      zero_field zero_field 0 119,
      OF rand_ok_env16 _ _ _ _ refl refl refl refl refl refl,
      THEN conjunct2, THEN conjunct2, THEN conjunct2, THEN conjunct2, THEN conjunct2,
      THEN conjunct2, THEN conjunct2]
  by (simp add: seed_eval)

text \<open>
  C10, as stated: after the initialization, perturbation included, every cell outside the
  seeded patch, the rows and columns in the fractional range \<open>[0.48, 0.52)\<close>, holds
  \<open>U = 1\<close> and \<open>V = 0\<close>. On the 16 by 16 grid cell 119, row 7 and column 7, is outside
  the fractional range, is seeded by the loops and perturbed: its \<open>U\<close> is within \<open>0.005\<close>
  of \<open>0.5\<close>.
\<close>

theorem outside_patch_counterexample:
  "\<not> in_central_patch 16 16 119
   \<and> fst (initializeConcentrations env16 16 16 zero_field zero_field 0) 119 \<noteq> 1"
proof -
  have "\<bar>fst (initializeConcentrations env16 16 16 zero_field zero_field 0) 119 - 0.5\<bar> \<le> 0.005"
    by (rule init_seeded(1) [OF rand_ok_env16]) (simp_all add: seed_eval)
  then have "fst (initializeConcentrations env16 16 16 zero_field zero_field 0) 119 \<noteq> 1"
    by auto
  moreover have "\<not> in_central_patch 16 16 119" by (simp add: in_central_patch_def)
  ultimately show ?thesis by blast
qed

text \<open>
  C10, amended: after the initialization, perturbation included, on a grid with fewer
  than \<open>2^31\<close> cells, every cell of the grid that the seed loops do not write (see C5)
  holds \<open>U = 1\<close> and \<open>V = 0\<close> exactly, for every sequence of draws: a value that is not
  below 1 is skipped, and \<open>0 + r * 0 = 0\<close>.
\<close>

theorem outside_patch_untouched:
  fixes width height :: u32
  assumes "unat width * unat height < 2 ^ 31"
    and "(U', V', rc') = initializeConcentrations e width height U V rc"
    and "c < unat width * unat height"
    and "row = c div unat width" and "col = c mod unat width"
    and "\<not> (seed_first (unat height) \<le> row \<and> seed_test row (unat height)
            \<and> seed_first (unat width) \<le> col \<and> seed_test col (unat width))"
  shows "U' c = 1 \<and> V' c = 0"
proof -
  have fit: "unat width * unat height < 2 ^ 32" using assms(1) by simp
  have s: "\<not> seeded (unat width) (unat height) c"
    using assms(6) by (simp add: seeded_def assms(4,5))
  have "U' = fst (initializeConcentrations e width height U V rc)"
    "V' = fst (snd (initializeConcentrations e width height U V rc))"
    using assms(2) by (metis fst_conv, metis fst_conv snd_conv)
  with init_outside [OF fit assms(3) s, of e U V rc] show ?thesis by simp
qed

theorem outside_patch_untouched_witness:
  "fst (initializeConcentrations env16 16 16 zero_field zero_field 0) 118 = 1
   \<and> fst (snd (initializeConcentrations env16 16 16 zero_field zero_field 0)) 118 = 0
   \<and> fst (initializeConcentrations env16 16 1008352 zero_field zero_field 0) 8389496 = 1"
  using outside_patch_untouched [of 16 16
      "fst (initializeConcentrations env16 16 16 zero_field zero_field 0)"
      "fst (snd (initializeConcentrations env16 16 16 zero_field zero_field 0))"
      "snd (snd (initializeConcentrations env16 16 16 zero_field zero_field 0))"
      env16 zero_field zero_field 0 118, OF _ _ _ refl refl]
    outside_patch_untouched [of 16 1008352
      "fst (initializeConcentrations env16 16 1008352 zero_field zero_field 0)"
      "fst (snd (initializeConcentrations env16 16 1008352 zero_field zero_field 0))"
      "snd (snd (initializeConcentrations env16 16 1008352 zero_field zero_field 0))"
      env16 zero_field zero_field 0 8389496, OF _ _ _ refl refl]
  by (simp add: seed_eval)

section \<open>The first call and the calls after it\<close>

lemma rd_first:
  assumes "first_pass s" and "malloc_ok e"
    and "(U, V, rc) = initializeConcentrations e w h (garbage e) (garbage e) (rand_calls s)"
    and "s1 = s\<lparr>first_pass := False, U_dev := Some U, V_dev := Some V, rand_calls := rc\<rparr>"
    and "UV' = rd_kernel_launch (schedule e) (make_uint2 (w div 16) (h div 16))
                 (make_uint2 16 16) w h 0.5 2
                 (0.0004 * (real (unat (w * h)) / 100))
                 (0.0002 * (real (unat (w * h)) / 100)) 0.012 0.052 (U, V)"
  shows "rd e w h r s =
           (if w mod 16 \<noteq> 0 \<or> h mod 16 \<noteq> 0 then (Exited DimensionError, s1)
            else if \<not> launch_ok e then (Exited KernelError, s1)
            else (Returned (cudaMemcpy r (fst UV') (unat (w * h))),
                  s1\<lparr>U_dev := Some (fst UV'), V_dev := Some (snd UV')\<rparr>))"
  using assms(1,2,4,5) assms(3) [symmetric]
  by (simp add: rd_def Let_def split: prod.splits)

lemma rd_returned_ready:
  assumes "first_pass s0" and "rd e w h r s0 = (Returned out, s1)"
  shows "\<not> first_pass s1 \<and> U_dev s1 \<noteq> None \<and> V_dev s1 \<noteq> None"
proof -
  obtain U V rc where i: "(U, V, rc) = initializeConcentrations e w h (garbage e) (garbage e) (rand_calls s0)"
    by (metis prod_cases3)
  show ?thesis
  proof (cases "malloc_ok e")
    case True
    from rd_first [OF assms(1) True i refl refl, of r] assms(2) show ?thesis
      by (auto split: if_splits)
  next
    case False
    with assms show ?thesis by (simp add: rd_def)
  qed
qed

section \<open>Claims about the calls\<close>

text \<open>
  C2, as stated: the first call with width 17 and height 16 fails with a configuration
  error before any buffer is allocated, initialized or read. In the code the first pass
  allocates and initializes both fields before the dimensions are verified: at the exit
  both device pointers are set and cell 0 holds \<open>U = 1\<close>, \<open>V = 0\<close>.
\<close>

theorem rd_misaligned_counterexample:
  "fst (rd env0 17 16 zero_field state0) = Exited DimensionError
   \<and> U_dev (snd (rd env0 17 16 zero_field state0)) \<noteq> None
   \<and> V_dev (snd (rd env0 17 16 zero_field state0)) \<noteq> None
   \<and> U_of (snd (rd env0 17 16 zero_field state0)) 0 = 1
   \<and> V_of (snd (rd env0 17 16 zero_field state0)) 0 = 0"
proof -
  let ?i = "initializeConcentrations env0 17 16 (garbage env0) (garbage env0) (rand_calls state0)"
  have f: "first_pass state0" and m: "malloc_ok env0"
    by (simp_all add: state0_def env0_def)
  have r: "(fst ?i, fst (snd ?i), snd (snd ?i)) = ?i" by simp
  have "rd env0 17 16 zero_field state0 =
          (Exited DimensionError,
           state0\<lparr>first_pass := False, U_dev := Some (fst ?i), V_dev := Some (fst (snd ?i)),
             rand_calls := snd (snd ?i)\<rparr>)"
    using rd_first [OF f m r refl refl, of zero_field] by simp
  moreover have "fst ?i 0 = 1" "fst (snd ?i) 0 = 0"
    by (rule init_outside; simp add: seed_eval)+
  ultimately show ?thesis by (simp add: U_of_def V_of_def)
qed

text \<open>
  C2, amended: the first call with width 17 and height 16, when the allocation succeeds,
  ends with the dimension error after the fields have been allocated and initialized and
  before the kernel is launched or the output buffer written: the state at the exit holds
  the initial concentrations, and \<^verbatim>\<open>first_pass\<close> is false.
\<close>

theorem rd_misaligned_first_call:
  assumes "first_pass s" and "malloc_ok e"
    and "(U, V, rc) = initializeConcentrations e 17 16 (garbage e) (garbage e) (rand_calls s)"
  shows "rd e 17 16 result_devPtr s =
           (Exited DimensionError,
            s\<lparr>first_pass := False, U_dev := Some U, V_dev := Some V, rand_calls := rc\<rparr>)"
  using rd_first [OF assms refl refl, of result_devPtr] by simp

theorem rd_misaligned_first_call_witness:
  "rd env0 17 16 zero_field state0 =
     (Exited DimensionError,
      \<lparr>first_pass = False,
       U_dev = Some (fst (initializeConcentrations env0 17 16 (garbage env0) (garbage env0) 0)),
       V_dev = Some (fst (snd (initializeConcentrations env0 17 16 (garbage env0) (garbage env0) 0))),
       rand_calls = snd (snd (initializeConcentrations env0 17 16 (garbage env0) (garbage env0) 0))\<rparr>)"
  using rd_misaligned_first_call [of state0 env0
      "fst (initializeConcentrations env0 17 16 (garbage env0) (garbage env0) 0)"
      "fst (snd (initializeConcentrations env0 17 16 (garbage env0) (garbage env0) 0))"
      "snd (snd (initializeConcentrations env0 17 16 (garbage env0) (garbage env0) 0))"
      zero_field]
  by (simp add: state0_def env0_def)

text \<open>
  C9, as stated: a second call whose dimensions are multiples of 16 and differ from the
  first call's is reported as a configuration error. The function keeps no record of the
  dimensions: after a first call on a 32 by 32 grid, a call on a 16 by 16 grid returns.
\<close>

theorem rd_changed_dimensions_counterexample:
  "returned (fst (rd env0 32 32 zero_field state0))
   \<and> returned (fst (rd env0 16 16 zero_field (snd (rd env0 32 32 zero_field state0))))"
proof -
  let ?i = "initializeConcentrations env0 32 32 (garbage env0) (garbage env0) (rand_calls state0)"
  have f: "first_pass state0" and m: "malloc_ok env0" and l: "launch_ok env0"
    by (simp_all add: state0_def env0_def)
  have r: "(fst ?i, fst (snd ?i), snd (snd ?i)) = ?i" by simp
  note first = rd_first [OF f m r refl refl, of zero_field]
  have one: "returned (fst (rd env0 32 32 zero_field state0))"
    using first l by simp
  have two: "returned (fst (rd env0 16 16 zero_field (snd (rd env0 32 32 zero_field state0))))"
    unfolding first using l by (simp add: rd_def Let_def split: prod.splits)
  from one two show ?thesis by blast
qed

text \<open>
  C9, amended: after a first call that returned, a call with other dimensions, multiples
  of 16 and with no more cells than the first grid, reports no error: it runs the kernel
  with the new dimensions on the fields the first call left, without allocating or
  initializing them again, copies \<open>U\<close> out and returns.
\<close>

theorem rd_second_call_reuses_fields:
  fixes w1 h1 w2 h2 :: u32
  assumes "first_pass s0" and "rd e1 w1 h1 r1 s0 = (Returned out1, s1)"
    and "w2 mod 16 = 0" and "h2 mod 16 = 0" and "launch_ok e2"
    and "unat w1 * unat h1 < 2 ^ 31" and "unat w2 * unat h2 \<le> unat w1 * unat h1"
    and "UV2 = rd_kernel_launch (schedule e2) (make_uint2 (w2 div 16) (h2 div 16))
                 (make_uint2 16 16) w2 h2 0.5 2
                 (0.0004 * (real (unat (w2 * h2)) / 100))
                 (0.0002 * (real (unat (w2 * h2)) / 100)) 0.012 0.052 (U_of s1, V_of s1)"
  shows "rd e2 w2 h2 r2 s1 =
           (Returned (cudaMemcpy r2 (fst UV2) (unat (w2 * h2))),
            s1\<lparr>U_dev := Some (fst UV2), V_dev := Some (snd UV2)\<rparr>)"
proof -
  from rd_returned_ready [OF assms(1,2)]
  obtain U1 V1 where s1: "\<not> first_pass s1" "U_dev s1 = Some U1" "V_dev s1 = Some V1"
    by auto
  have "U_of s1 = U1" "V_of s1 = V1" using s1 by (simp_all add: U_of_def V_of_def)
  with assms(8) have "UV2 = rd_kernel_launch (schedule e2) (make_uint2 (w2 div 16) (h2 div 16))
                 (make_uint2 16 16) w2 h2 0.5 2
                 (0.0004 * (real (unat (w2 * h2)) / 100))
                 (0.0002 * (real (unat (w2 * h2)) / 100)) 0.012 0.052 (U1, V1)" by simp
  with s1 assms(3,4,5) show ?thesis by (intro rd_ready)
qed

theorem rd_second_call_reuses_fields_witness:
  "returned (fst (rd env16 16 16 zero_field (snd (rd env0 32 32 zero_field state0))))
   \<and> rand_calls (snd (rd env16 16 16 zero_field (snd (rd env0 32 32 zero_field state0))))
       = rand_calls (snd (rd env0 32 32 zero_field state0))
   \<and> \<not> first_pass (snd (rd env16 16 16 zero_field (snd (rd env0 32 32 zero_field state0))))"
proof -
  let ?i = "initializeConcentrations env0 32 32 (garbage env0) (garbage env0) (rand_calls state0)"
  have f: "first_pass state0" and m: "malloc_ok env0" and l: "launch_ok env0"
    by (simp_all add: state0_def env0_def)
  have r: "(fst ?i, fst (snd ?i), snd (snd ?i)) = ?i" by simp
  have first: "rd env0 32 32 zero_field state0
                 = (fst (rd env0 32 32 zero_field state0), snd (rd env0 32 32 zero_field state0))"
    by simp
  obtain out1 where out1: "fst (rd env0 32 32 zero_field state0) = Returned out1"
    using rd_first [OF f m r refl refl, of zero_field] l by simp
  have ready: "\<not> first_pass (snd (rd env0 32 32 zero_field state0))"
    using rd_first [OF f m r refl refl, of zero_field] l by simp
  have call1: "rd env0 32 32 zero_field state0 = (Returned out1, snd (rd env0 32 32 zero_field state0))"
    using first out1 by simp
  show ?thesis
    using rd_second_call_reuses_fields [OF f call1, of 16 16 env16 _ zero_field, OF _ _ _ _ _ refl] ready
    by (simp add: env16_def)
qed

end
